theory Spec2Isabelle
  imports Main "HOL-Library.Word"
begin

section \<open>D8 flow accumulation (richdem/methods/flow\_accumulation.hpp)\<close>

text \<open>
  The development embeds \<^verbatim>\<open>flow_accumulation_from_d8\<close>: the dependency-count
  pass, the search for source cells, the queue-driven propagation loop and the final
  no-data sweep. The routine is a template over the cell type \<^verbatim>\<open>T\<close> of the
  direction raster; the embedding takes \<^verbatim>\<open>T = uint8_t\<close>. The dependency raster
  holds \<^verbatim>\<open>int8_t\<close> and the accumulation raster \<^verbatim>\<open>uint32_t\<close>; all three
  are machine words whose arithmetic wraps, the dependency counts being read as signed.
  Coordinates and linear cell indices are C++ \<^verbatim>\<open>int\<close>s and are modelled as
  \<^typ>\<open>int\<close> (the rasters considered hold fewer than \<open>2^31\<close> cells). Logging, the
  timer and the display of the progress bar are left out; the progress counter is kept.
\<close>

subsection \<open>The raster type\<close>

type_synonym u8 = "8 word"
type_synonym i8 = "8 word"
type_synonym u32 = "32 word"

text \<open>
  Modelled from the spec: the class \<^verbatim>\<open>Array2D\<close> (richdem/common/Array2D.hpp is
  not among the sources at hand). The spec describes it as a dense rectangular array
  with row-major linear indexing, fixed width and height, one no-data sentinel, bounds
  and no-data predicates and neighbour-offset tables. The members below are the ones
  the accumulation routine calls, under RichDEM's names.
\<close>

record 'a Array2D =
  view_width :: int
  view_height :: int
  data :: "'a list"
  no_data :: 'a

text \<open>
  Modelled from the spec: the class invariant of \<^verbatim>\<open>Array2D\<close>, a raster of
  \<open>width * height\<close> cells.
\<close>

definition well_formed :: "'a Array2D \<Rightarrow> bool" where
  "well_formed g \<longleftrightarrow>
     0 \<le> view_width g \<and> 0 \<le> view_height g \<and>
     int (length (data g)) = view_width g * view_height g"

text \<open>Modelled from the spec: \<^verbatim>\<open>Array2D::size()\<close>, the number of cells.\<close>

definition size_of :: "'a Array2D \<Rightarrow> int" where
  "size_of g = view_width g * view_height g"

text \<open>Modelled from the spec: \<^verbatim>\<open>Array2D::xyToI\<close>, the row-major linear index.\<close>

definition xyToI :: "'a Array2D \<Rightarrow> int \<Rightarrow> int \<Rightarrow> int" where
  "xyToI g x y = y * view_width g + x"

text \<open>
  Modelled from the spec: \<^verbatim>\<open>Array2D::iToxy\<close>, the inverse of the linear index.
  On the indices the routine passes (non-negative, with a positive width) C++'s
  \<^verbatim>\<open>%\<close> and \<^verbatim>\<open>/\<close> agree with \<open>mod\<close> and \<open>div\<close>.
\<close>

definition iToxy :: "'a Array2D \<Rightarrow> int \<Rightarrow> int \<times> int" where
  "iToxy g i = (i mod view_width g, i div view_width g)"

text \<open>Modelled from the spec: \<^verbatim>\<open>Array2D::inGrid\<close>, the bounds predicate.\<close>

definition inGrid :: "'a Array2D \<Rightarrow> int \<Rightarrow> int \<Rightarrow> bool" where
  "inGrid g x y \<longleftrightarrow> 0 \<le> x \<and> x < view_width g \<and> 0 \<le> y \<and> y < view_height g"

text \<open>
  Modelled from the spec: \<^verbatim>\<open>Array2D::isEdgeCell\<close>, true on the first and last
  row and column.
\<close>

definition isEdgeCell :: "'a Array2D \<Rightarrow> int \<Rightarrow> int \<Rightarrow> bool" where
  "isEdgeCell g x y \<longleftrightarrow>
     x = 0 \<or> y = 0 \<or> x = view_width g - 1 \<or> y = view_height g - 1"

text \<open>
  Modelled from the spec: \<^verbatim>\<open>Array2D::operator()\<close> at a linear index; the call
  \<^verbatim>\<open>d8_in(x, y)\<close> is \<open>cell d8_in (xyToI d8_in x y)\<close>.
\<close>

definition cell :: "'a Array2D \<Rightarrow> int \<Rightarrow> 'a" where
  "cell g i = data g ! nat i"

text \<open>Modelled from the spec: \<^verbatim>\<open>Array2D::isNoData\<close>, the no-data predicate.\<close>

definition isNoData :: "'a Array2D \<Rightarrow> int \<Rightarrow> bool" where
  "isNoData g i \<longleftrightarrow> cell g i = no_data g"

text \<open>
  Modelled from the spec: \<^verbatim>\<open>Array2D::nshift\<close>, the neighbour-offset table in
  linear indices; entry \<open>n\<close> is \<open>d8y[n] * width + d8x[n]\<close>.
\<close>

definition nshift :: "'a Array2D \<Rightarrow> nat \<Rightarrow> int" where
  "nshift g n =
     (let w = view_width g
      in [0, - 1, - w - 1, - w, - w + 1, 1, w + 1, w, w - 1] ! n)"

text \<open>
  Modelled from the spec: \<^verbatim>\<open>Array2D::make_from_template\<close> followed by
  \<^verbatim>\<open>setNoData\<close>: a raster of the same shape filled with \<open>v\<close>, with sentinel
  \<open>nd\<close>.
\<close>

definition make_from_template :: "'a Array2D \<Rightarrow> 'b \<Rightarrow> 'b \<Rightarrow> 'b Array2D" where
  "make_from_template g v nd =
     \<lparr>view_width = view_width g, view_height = view_height g,
      data = replicate (nat (size_of g)) v, no_data = nd\<rparr>"

text \<open>
  Modelled from the spec: the constant \<^verbatim>\<open>NO_FLOW\<close> (richdem/common/constants.hpp
  is not among the sources at hand). The spec fixes a direction code as one of 1..8 or a
  distinguished no-flow value; in RichDEM that value is 0.
\<close>

definition NO_FLOW :: u8 where
  "NO_FLOW = 0"

text \<open>
  Modelled from the spec: the tables \<^verbatim>\<open>d8x\<close> and \<^verbatim>\<open>d8y\<close> of the same
  header, the column and row offsets of the eight neighbours in RichDEM's D8 numbering
  (1 is west, then clockwise); entry 0 is the cell itself. The tables have nine entries.
\<close>

definition d8x :: "int list" where
  "d8x = [0, - 1, - 1, 0, 1, 1, 1, 0, - 1]"

definition d8y :: "int list" where
  "d8y = [0, 0, - 1, - 1, - 1, 0, 1, 1, 1]"

subsection \<open>Failures\<close>

text \<open>
  The routine has no error return. Two things can stop it: one of its two
  \<^verbatim>\<open>assert\<close>s, and reading \<^verbatim>\<open>d8x[n]\<close>, \<^verbatim>\<open>d8y[n]\<close> or
  \<^verbatim>\<open>nshift(n)\<close> with a code \<open>n > 8\<close>, which is outside the nine-entry tables.
  The source makes that read unchecked, which is undefined behaviour in C++; the failure
  value \<open>TableIndexOutOfRange\<close> stands for it, so the embedding agrees with the
  routine on the rasters whose interior data cells hold codes 0..8, and says nothing of
  the routine on the others.
\<close>

datatype error = AssertionFailed | TableIndexOutOfRange

subsection \<open>The dependency-count pass\<close>

text \<open>
  Lines 52--69. The two nested loops visit the cells \<open>(x, y)\<close> with
  \<open>1 \<le> y < height - 1\<close> and \<open>1 \<le> x < width - 1\<close>, row by row;
  \<open>count_dependency\<close> is the loop body and \<open>for_each\<close> runs it over the cells,
  stopping at the first failure.
\<close>

definition interior_cells :: "'a Array2D \<Rightarrow> (int \<times> int) list" where
  "interior_cells g =
     concat (map (\<lambda>y. map (\<lambda>x. (x, y)) [1 .. view_width g - 2]) [1 .. view_height g - 2])"

definition count_dependency :: "u8 Array2D \<Rightarrow> int \<times> int \<Rightarrow> i8 list \<Rightarrow> error + i8 list" where
  "count_dependency d8_in c deps =
     (case c of (x, y) \<Rightarrow>
        if isNoData d8_in (xyToI d8_in x y) then Inr deps
        else
          let n = cell d8_in (xyToI d8_in x y) in
          if n = NO_FLOW then Inr deps
          else if 8 < unat n then Inl TableIndexOutOfRange
          else
            let nx = x + d8x ! unat n; ny = y + d8y ! unat n in
            if \<not> inGrid d8_in nx ny then Inr deps
            else
              let ni = xyToI d8_in x y + nshift d8_in (unat n)
              in Inr (deps[nat ni := deps ! nat ni + 1]))"

fun for_each :: "('c \<Rightarrow> 's \<Rightarrow> error + 's) \<Rightarrow> 'c list \<Rightarrow> 's \<Rightarrow> error + 's" where
  "for_each f [] s = Inr s"
| "for_each f (c # cs) s = (case f c s of Inl e \<Rightarrow> Inl e | Inr s' \<Rightarrow> for_each f cs s')"

definition create_dependencies :: "u8 Array2D \<Rightarrow> error + i8 list" where
  "create_dependencies d8_in =
     for_each (count_dependency d8_in) (interior_cells d8_in)
       (replicate (nat (size_of d8_in)) 0)"

subsection \<open>The source cells\<close>

text \<open>
  Lines 72--79. The queue is a list, filled at its end (\<^verbatim>\<open>emplace\<close>) and emptied
  from its head (\<^verbatim>\<open>front\<close>, \<^verbatim>\<open>pop\<close>).
\<close>

definition find_sources :: "u8 Array2D \<Rightarrow> i8 list \<Rightarrow> int list" where
  "find_sources d8_in deps =
     fold (\<lambda>(x, y) q.
             if deps ! nat (xyToI d8_in x y) = 0 \<and> \<not> isNoData d8_in (xyToI d8_in x y)
             then q @ [xyToI d8_in x y] else q)
          (interior_cells d8_in) []"

subsection \<open>The propagation loop\<close>

text \<open>
  Lines 86--115. The loop works on the accumulation raster, the dependency raster, the
  queue and the progress counter; \<open>propagate\<close> is one iteration, run only on a
  non-empty queue, and \<open>drain\<close> is the loop. The loop has no bound of its own, so it is
  a partial function: a run that never ended would be \<open>None\<close>.
\<close>

record fa_state =
  accum :: "u32 list"
  deps :: "i8 list"
  q :: "int list"
  progress :: nat

definition propagate :: "u8 Array2D \<Rightarrow> fa_state \<Rightarrow> error + fa_state" where
  "propagate d8_in s =
     (let ci = hd (q s); q1 = tl (q s); p1 = Suc (progress s) in
      if isNoData d8_in ci then Inl AssertionFailed
      else
        let c_accum = accum s ! nat ci + 1;
            accum1 = (accum s)[nat ci := c_accum];
            n = cell d8_in ci
        in
        if n = NO_FLOW then Inr (s\<lparr>accum := accum1, q := q1, progress := p1\<rparr>)
        else if 8 < unat n then Inl TableIndexOutOfRange
        else
          let ni = ci + nshift d8_in (unat n);
              (nx, ny) = iToxy d8_in ni
          in
          if \<not> inGrid d8_in nx ny \<or> isEdgeCell d8_in nx ny \<or> isNoData d8_in ni
          then Inr (s\<lparr>accum := accum1, q := q1, progress := p1\<rparr>)
          else
            let accum2 = accum1[nat ni := accum1 ! nat ni + c_accum];
                d = deps s ! nat ni - 1;
                deps1 = (deps s)[nat ni := d];
                q2 = (if d = 0 then q1 @ [ni] else q1)
            in
            if sint d < 0 then Inl AssertionFailed
            else Inr \<lparr>accum = accum2, deps = deps1, q = q2, progress = p1\<rparr>)"

partial_function (option) drain :: "u8 Array2D \<Rightarrow> fa_state \<Rightarrow> (error + fa_state) option" where
  "drain d8_in s =
     (if q s = [] then Some (Inr s)
      else case propagate d8_in s of
             Inl e \<Rightarrow> Some (Inl e)
           | Inr s' \<Rightarrow> drain d8_in s')"

declare drain.simps [code]

subsection \<open>The no-data sweep and the whole routine\<close>

text \<open>
  Lines 118--122: every no-data cell of the input receives \<^verbatim>\<open>d8_in.noData()\<close>,
  converted to the accumulation raster's \<^verbatim>\<open>uint32_t\<close>.
\<close>

definition stamp_no_data :: "u8 Array2D \<Rightarrow> u32 list \<Rightarrow> u32 list" where
  "stamp_no_data d8_in acc =
     fold (\<lambda>i a. if isNoData d8_in i then a[nat i := ucast (no_data d8_in)] else a)
          [0 .. size_of d8_in - 1] acc"

text \<open>
  The state in which the loop starts, and the routine up to the end of the loop.
\<close>

definition initial_state :: "u8 Array2D \<Rightarrow> i8 list \<Rightarrow> fa_state" where
  "initial_state d8_in ds =
     \<lparr>accum = replicate (nat (size_of d8_in)) 0, deps = ds,
      q = find_sources d8_in ds, progress = 0\<rparr>"

definition run_scheduler :: "u8 Array2D \<Rightarrow> (error + fa_state) option" where
  "run_scheduler d8_in =
     (case create_dependencies d8_in of
        Inl e \<Rightarrow> Some (Inl e)
      | Inr ds \<Rightarrow> drain d8_in (initial_state d8_in ds))"

text \<open>
  The sentinel \<^verbatim>\<open>ACCUM_NO_DATA\<close> is declared in a header that is not among the
  sources at hand; the routine takes it as its first argument. It is the value given to
  \<^verbatim>\<open>accum.setNoData\<close>, converted to the raster's \<^verbatim>\<open>uint32_t\<close>.
\<close>

definition flow_accumulation_from_d8 ::
    "u32 \<Rightarrow> u8 Array2D \<Rightarrow> (error + u32 Array2D) option" where
  "flow_accumulation_from_d8 ACCUM_NO_DATA d8_in =
     (case run_scheduler d8_in of
        None \<Rightarrow> None
      | Some (Inl e) \<Rightarrow> Some (Inl e)
      | Some (Inr s) \<Rightarrow>
          Some (Inr ((make_from_template d8_in 0 ACCUM_NO_DATA)
                       \<lparr>data := stamp_no_data d8_in (accum s)\<rparr>)))"

subsection \<open>The flow graph of a direction raster\<close>

text \<open>
  The notions the properties are stated with. The cells the routine works on are the
  interior ones (those that are not edge cells); a live cell is an interior cell that
  holds data. A live cell whose code is not \<^verbatim>\<open>NO_FLOW\<close> flows into the cell
  at \<open>target\<close>, and it delivers when that cell is live too; \<open>sources g t\<close> are the
  cells flowing into \<open>t\<close>. The codes are in range when every live cell holds a code of
  at most 8.
\<close>

definition interior :: "'a Array2D \<Rightarrow> int \<Rightarrow> bool" where
  "interior g i \<longleftrightarrow>
     0 \<le> i \<and> i < size_of g \<and> (case iToxy g i of (x, y) \<Rightarrow> \<not> isEdgeCell g x y)"

definition live :: "'a Array2D \<Rightarrow> int \<Rightarrow> bool" where
  "live g i \<longleftrightarrow> interior g i \<and> \<not> isNoData g i"

definition flows :: "u8 Array2D \<Rightarrow> int \<Rightarrow> bool" where
  "flows g i \<longleftrightarrow> live g i \<and> cell g i \<noteq> NO_FLOW"

definition target :: "u8 Array2D \<Rightarrow> int \<Rightarrow> int" where
  "target g i = i + nshift g (unat (cell g i))"

definition sources :: "u8 Array2D \<Rightarrow> int \<Rightarrow> int set" where
  "sources g t = {i. flows g i \<and> target g i = t}"

definition codes_in_range :: "u8 Array2D \<Rightarrow> bool" where
  "codes_in_range g \<longleftrightarrow>
     (\<forall>c \<in> set (interior_cells g).
        case c of (x, y) \<Rightarrow>
          \<not> isNoData g (xyToI g x y) \<longrightarrow> unat (cell g (xyToI g x y)) \<le> 8)"

definition interior_indices :: "'a Array2D \<Rightarrow> int list" where
  "interior_indices g = map (\<lambda>(x, y). xyToI g x y) (interior_cells g)"

definition delivers :: "u8 Array2D \<Rightarrow> int \<Rightarrow> bool" where
  "delivers g i \<longleftrightarrow> flows g i \<and> live g (target g i)"

text \<open>
  A live cell is finalized in a state when its count is zero and it is not in the queue;
  the invariant of the loop ties the counts to the sources that are not finalized yet.
  The reachable states are the state the loop starts in and the states its iterations
  lead to.
\<close>

definition finalized :: "u8 Array2D \<Rightarrow> fa_state \<Rightarrow> int \<Rightarrow> bool" where
  "finalized g s i \<longleftrightarrow> live g i \<and> deps s ! nat i = 0 \<and> i \<notin> set (q s)"

definition pending_sources :: "u8 Array2D \<Rightarrow> fa_state \<Rightarrow> int \<Rightarrow> int set" where
  "pending_sources g s t = {i \<in> sources g t. \<not> finalized g s i}"

definition scheduler_inv :: "u8 Array2D \<Rightarrow> fa_state \<Rightarrow> bool" where
  "scheduler_inv g s \<longleftrightarrow>
     length (accum s) = nat (size_of g) \<and> length (deps s) = nat (size_of g) \<and>
     distinct (q s) \<and> (\<forall>i \<in> set (q s). live g i \<and> deps s ! nat i = 0) \<and>
     (\<forall>t. live g t \<longrightarrow> deps s ! nat t = of_nat (card (pending_sources g s t))) \<and>
     (\<forall>t. 0 \<le> t \<and> t < size_of g \<and> \<not> live g t \<longrightarrow>
          deps s ! nat t = of_nat (card (sources g t)) \<and> accum s ! nat t = 0) \<and>
     progress s = card {i. finalized g s i}"

inductive reachable :: "u8 Array2D \<Rightarrow> fa_state \<Rightarrow> bool" for g :: "u8 Array2D" where
  start: "create_dependencies g = Inr ds \<Longrightarrow> reachable g (initial_state g ds)"
| step: "reachable g s \<Longrightarrow> q s \<noteq> [] \<Longrightarrow> propagate g s = Inr s' \<Longrightarrow> reachable g s'"

text \<open>
  The flow field as a graph on the live cells, its cycles, and the quantity the loop
  conserves: the registers of the live cells that are waiting or terminal.
\<close>

definition flow_edges :: "u8 Array2D \<Rightarrow> (int \<times> int) set" where
  "flow_edges g = {(i, j). delivers g i \<and> j = target g i}"

definition on_cycle :: "u8 Array2D \<Rightarrow> int \<Rightarrow> bool" where
  "on_cycle g c \<longleftrightarrow> (c, c) \<in> (flow_edges g)\<^sup>+"



subsection \<open>Example rasters\<close>

text \<open>
  \<open>star3\<close>: eight edge cells routing into a no-flow centre. \<open>two_cycle\<close>: cells 5 and
  6 routing into each other. \<open>west3\<close>: the centre routing into the edge cell to its
  west. \<open>chain5\<close>: cells 6, 7, 8 in a row, each routing east, the last one no-flow.
  \<open>feeder\<close>: cell 6 routing into cell 7, cells 7 and 8 routing into each other.
  \<open>corner9\<close>: the code 9 in a corner. \<open>hole4\<close>: a no-data cell next to a data cell.
  \<open>flat3\<close>: no-flow everywhere.
\<close>

definition star3 :: "u8 \<Rightarrow> u8 Array2D" where
  "star3 nd = \<lparr>view_width = 3, view_height = 3,
               data = [6, 7, 8, 5, 0, 1, 4, 3, 2], no_data = nd\<rparr>"

definition two_cycle :: "u8 Array2D" where
  "two_cycle = \<lparr>view_width = 4, view_height = 3,
                data = [0, 0, 0, 0, 0, 5, 1, 0, 0, 0, 0, 0], no_data = 255\<rparr>"

definition west3 :: "u8 Array2D" where
  "west3 = \<lparr>view_width = 3, view_height = 3,
            data = [0, 0, 0, 0, 1, 0, 0, 0, 0], no_data = 255\<rparr>"

definition chain5 :: "u8 Array2D" where
  "chain5 = \<lparr>view_width = 5, view_height = 3,
             data = [0, 0, 0, 0, 0, 0, 5, 5, 0, 0, 0, 0, 0, 0, 0], no_data = 255\<rparr>"


definition corner9 :: "u8 Array2D" where
  "corner9 = \<lparr>view_width = 3, view_height = 3,
              data = [9, 0, 0, 0, 0, 0, 0, 0, 0], no_data = 255\<rparr>"

definition hole4 :: "u8 Array2D" where
  "hole4 = \<lparr>view_width = 4, view_height = 3,
            data = [0, 0, 0, 0, 0, 255, 0, 0, 0, 0, 0, 0], no_data = 255\<rparr>"


subsection \<open>The flow field over all data cells\<close>

text \<open>
  The specification speaks of every data cell of the raster, edge cells included: a
  terminal cell is a data cell with the no-flow code or whose neighbour is off the raster
  or no-data, a cell that is not terminal has an edge to its neighbour, and conservation
  says that the accumulation values of the terminal cells add up to the number of data
  cells that reach a terminal cell. The next definitions follow these words.
\<close>

definition has_data :: "u8 Array2D \<Rightarrow> int \<Rightarrow> bool" where
  "has_data g i \<longleftrightarrow> 0 \<le> i \<and> i < size_of g \<and> \<not> isNoData g i"

definition neighbour :: "u8 Array2D \<Rightarrow> int \<Rightarrow> int option" where
  "neighbour g i =
     (case iToxy g i of (x, y) \<Rightarrow>
        let n = unat (cell g i) in
        if n = 0 \<or> 8 < n then None
        else if inGrid g (x + d8x ! n) (y + d8y ! n)
        then Some (xyToI g (x + d8x ! n) (y + d8y ! n)) else None)"

definition claimed_terminal :: "u8 Array2D \<Rightarrow> int \<Rightarrow> bool" where
  "claimed_terminal g i \<longleftrightarrow>
     has_data g i \<and>
     (cell g i = NO_FLOW \<or> (case neighbour g i of None \<Rightarrow> True | Some j \<Rightarrow> isNoData g j))"

definition claimed_edges :: "u8 Array2D \<Rightarrow> (int \<times> int) set" where
  "claimed_edges g =
     {(i, j). has_data g i \<and> \<not> claimed_terminal g i \<and> neighbour g i = Some j}"


section \<open>Properties\<close>

subsection \<open>Cell indices\<close>

lemma interior_cells_iff:
  "(x, y) \<in> set (interior_cells g) \<longleftrightarrow>
     1 \<le> x \<and> x \<le> view_width g - 2 \<and> 1 \<le> y \<and> y \<le> view_height g - 2"
  by (force simp: interior_cells_def)

lemma distinct_rows:
  "distinct xs \<Longrightarrow> distinct ys \<Longrightarrow>
     distinct (concat (map (\<lambda>y. map (\<lambda>x. (x, y)) xs) ys))"
  by (induction ys) (auto simp: distinct_map inj_on_def)

lemma distinct_interior_cells: "distinct (interior_cells g)"
  unfolding interior_cells_def by (rule distinct_rows) simp_all

lemma iToxy_xyToI:
  "0 \<le> x \<Longrightarrow> x < view_width g \<Longrightarrow> iToxy g (xyToI g x y) = (x, y)"
  by (simp add: iToxy_def xyToI_def)

lemma xyToI_iToxy: "xyToI g (fst (iToxy g i)) (snd (iToxy g i)) = i"
  by (simp add: iToxy_def xyToI_def)

lemma xyToI_inj:
  "0 \<le> x \<Longrightarrow> x < view_width g \<Longrightarrow> 0 \<le> x' \<Longrightarrow> x' < view_width g \<Longrightarrow>
     xyToI g x y = xyToI g x' y' \<Longrightarrow> x = x' \<and> y = y'"
  by (metis iToxy_xyToI prod.inject)

lemma xyToI_bounds:
  assumes "0 \<le> x" "x < view_width g" "0 \<le> y" "y < view_height g"
  shows "0 \<le> xyToI g x y \<and> xyToI g x y < size_of g"
proof -
  have "y * view_width g \<le> (view_height g - 1) * view_width g"
    using assms by (intro mult_right_mono) auto
  then have "y * view_width g + x < view_height g * view_width g"
    using assms by (simp add: algebra_simps)
  moreover have "0 \<le> y * view_width g" using assms by simp
  ultimately show ?thesis using assms by (simp add: xyToI_def size_of_def mult.commute)
qed

lemma iToxy_bounds:
  assumes "well_formed g" "0 \<le> i" "i < size_of g"
  shows "inGrid g (fst (iToxy g i)) (snd (iToxy g i))"
proof -
  have "view_width g \<noteq> 0" using assms by (auto simp: size_of_def)
  then have w: "0 < view_width g" using assms by (simp add: well_formed_def)
  have "i div view_width g < view_height g"
  proof (rule ccontr)
    assume "\<not> i div view_width g < view_height g"
    then have "view_height g * view_width g \<le> (i div view_width g) * view_width g"
      using w by (intro mult_right_mono) auto
    also have "\<dots> \<le> i"
      using w by (metis div_mult_mod_eq le_add_same_cancel1 pos_mod_sign)
    finally show False using assms by (simp add: size_of_def mult.commute)
  qed
  then show ?thesis using assms w by (simp add: inGrid_def iToxy_def pos_imp_zdiv_nonneg_iff)
qed

lemma interior_iff:
  assumes wf: "well_formed g"
  shows "interior g i \<longleftrightarrow> (\<exists>x y. (x, y) \<in> set (interior_cells g) \<and> i = xyToI g x y)"
proof
  assume a: "interior g i"
  then have r: "0 \<le> i" "i < size_of g" by (auto simp: interior_def)
  from iToxy_bounds [OF wf r] a
  have "(fst (iToxy g i), snd (iToxy g i)) \<in> set (interior_cells g)"
    by (auto simp: interior_cells_iff interior_def inGrid_def isEdgeCell_def split: prod.splits)
  then show "\<exists>x y. (x, y) \<in> set (interior_cells g) \<and> i = xyToI g x y"
    using xyToI_iToxy [of g i] by metis
next
  assume "\<exists>x y. (x, y) \<in> set (interior_cells g) \<and> i = xyToI g x y"
  then obtain x y where c: "1 \<le> x" "x \<le> view_width g - 2" "1 \<le> y" "y \<le> view_height g - 2"
    and i: "i = xyToI g x y" by (auto simp: interior_cells_iff)
  have "0 \<le> xyToI g x y \<and> xyToI g x y < size_of g"
    using c by (intro xyToI_bounds) auto
  moreover have "iToxy g (xyToI g x y) = (x, y)" using c by (intro iToxy_xyToI) auto
  ultimately show "interior g i"
    using c i by (auto simp: interior_def isEdgeCell_def)
qed

lemma neighbour_in_grid:
  assumes c: "(x, y) \<in> set (interior_cells g)" and n: "1 \<le> n" "n \<le> 8"
  shows "inGrid g (x + d8x ! n) (y + d8y ! n) \<and>
         xyToI g x y + nshift g n = xyToI g (x + d8x ! n) (y + d8y ! n)"
proof -
  from n have "n \<in> {1, 2, 3, 4} \<union> {5, 6, 7, 8}"
    by simp arith
  moreover from c have "1 \<le> x" "x \<le> view_width g - 2" "1 \<le> y" "y \<le> view_height g - 2"
    by (simp_all add: interior_cells_iff)
  ultimately show ?thesis
    by (auto simp: inGrid_def d8x_def d8y_def nshift_def xyToI_def Let_def algebra_simps)
qed

lemma interior_live:
  "well_formed g \<Longrightarrow> (x, y) \<in> set (interior_cells g) \<Longrightarrow>
     live g (xyToI g x y) \<longleftrightarrow> \<not> isNoData g (xyToI g x y)"
  by (auto simp: live_def interior_iff)

lemma codes_in_range_iff:
  "well_formed g \<Longrightarrow> codes_in_range g \<longleftrightarrow> (\<forall>i. live g i \<longrightarrow> unat (cell g i) \<le> 8)"
  unfolding codes_in_range_def live_def by (auto simp: interior_iff)

lemma flows_code:
  "well_formed g \<Longrightarrow> codes_in_range g \<Longrightarrow> flows g i \<Longrightarrow>
     1 \<le> unat (cell g i) \<and> unat (cell g i) \<le> 8"
  by (auto simp: codes_in_range_iff flows_def NO_FLOW_def unat_eq_0 Suc_le_eq unat_gt_0)

lemma target_range:
  assumes wf: "well_formed g" and i: "interior g i"
    and n: "1 \<le> unat (cell g i)" "unat (cell g i) \<le> 8"
  shows "0 \<le> target g i \<and> target g i < size_of g"
proof -
  from i obtain x y where c: "(x, y) \<in> set (interior_cells g)" and e: "i = xyToI g x y"
    by (auto simp: interior_iff [OF wf])
  from neighbour_in_grid [OF c n] xyToI_bounds [of "x + d8x ! unat (cell g i)" g "y + d8y ! unat (cell g i)"]
  show ?thesis by (simp add: target_def e inGrid_def)
qed

subsection \<open>The dependency-count pass\<close>

lemma count_dependency_interior:
  assumes wf: "well_formed g" and c: "(x, y) \<in> set (interior_cells g)"
  shows "count_dependency g (x, y) d =
     (if flows g (xyToI g x y) then
        if 8 < unat (cell g (xyToI g x y)) then Inl TableIndexOutOfRange
        else Inr (d[nat (target g (xyToI g x y)) :=
                     d ! nat (target g (xyToI g x y)) + 1])
      else Inr d)"
proof (cases "flows g (xyToI g x y) \<and> \<not> 8 < unat (cell g (xyToI g x y))")
  case True
  then have "1 \<le> unat (cell g (xyToI g x y))" "unat (cell g (xyToI g x y)) \<le> 8"
    by (auto simp: flows_def NO_FLOW_def Suc_le_eq unat_gt_0)
  from neighbour_in_grid [OF c this] True show ?thesis
    using interior_live [OF wf c]
    by (simp add: count_dependency_def flows_def target_def Let_def)
next
  case False
  then show ?thesis
    using interior_live [OF wf c]
    by (auto simp: count_dependency_def flows_def Let_def)
qed

lemma for_each_count:
  assumes wf: "well_formed g"
  shows "\<forall>c \<in> set cs. c \<in> set (interior_cells g) \<Longrightarrow>
     for_each (count_dependency g) cs d = Inr d' \<Longrightarrow>
     length d' = length d \<and>
     (\<forall>(x, y) \<in> set cs. flows g (xyToI g x y) \<longrightarrow> unat (cell g (xyToI g x y)) \<le> 8) \<and>
     (\<forall>k < length d. d' ! k = d ! k +
        of_nat (length (filter (\<lambda>(x, y). flows g (xyToI g x y) \<and> target g (xyToI g x y) = int k) cs)))"
proof (induction cs arbitrary: d)
  case Nil
  then show ?case by simp
next
  case (Cons c cs)
  obtain x y where c: "c = (x, y)" by (cases c)
  with Cons.prems have ci: "(x, y) \<in> set (interior_cells g)" by simp
  note cd = count_dependency_interior [OF wf ci]
  show ?case
  proof (cases "flows g (xyToI g x y)")
    case False
    with Cons.prems cd have "for_each (count_dependency g) cs d = Inr d'" by (simp add: c)
    with Cons.IH [of d] Cons.prems False show ?thesis by (simp add: c)
  next
    case True
    with Cons.prems cd have n8: "unat (cell g (xyToI g x y)) \<le> 8"
      by (auto simp: c split: if_splits)
    let ?t = "target g (xyToI g x y)"
    let ?d = "d[nat ?t := d ! nat ?t + 1]"
    from True n8 Cons.prems cd have r: "for_each (count_dependency g) cs ?d = Inr d'"
      by (simp add: c)
    have "1 \<le> unat (cell g (xyToI g x y))"
      using True by (auto simp: flows_def NO_FLOW_def Suc_le_eq unat_gt_0)
    with target_range [OF wf _ _ n8] ci
    have t0: "0 \<le> ?t" by (auto simp: interior_iff [OF wf])
    from Cons.IH [OF _ r] Cons.prems
    have ih: "length d' = length ?d"
      "\<forall>(x, y) \<in> set cs. flows g (xyToI g x y) \<longrightarrow> unat (cell g (xyToI g x y)) \<le> 8"
      "\<forall>k < length ?d. d' ! k = ?d ! k +
        of_nat (length (filter (\<lambda>(x, y). flows g (xyToI g x y) \<and> target g (xyToI g x y) = int k) cs))"
      by auto
    have "\<forall>k < length d. d' ! k = d ! k +
        of_nat (length (filter (\<lambda>(x, y). flows g (xyToI g x y) \<and> target g (xyToI g x y) = int k) (c # cs)))"
    proof (intro allI impI)
      fix k assume k: "k < length d"
      have e: "nat ?t = k \<longleftrightarrow> ?t = int k" using t0 by auto
      from ih(3) k show "d' ! k = d ! k +
        of_nat (length (filter (\<lambda>(x, y). flows g (xyToI g x y) \<and> target g (xyToI g x y) = int k) (c # cs)))"
        using True e by (auto simp: c nth_list_update)
    qed
    with ih True n8 show ?thesis by (simp add: c)
  qed
qed

lemma for_each_succeeds:
  assumes wf: "well_formed g"
  shows "\<forall>c \<in> set cs. c \<in> set (interior_cells g) \<Longrightarrow>
     \<forall>(x, y) \<in> set cs. flows g (xyToI g x y) \<longrightarrow> unat (cell g (xyToI g x y)) \<le> 8 \<Longrightarrow>
     \<exists>d'. for_each (count_dependency g) cs d = Inr d'"
proof (induction cs arbitrary: d)
  case Nil
  then show ?case by simp
next
  case (Cons c cs)
  obtain x y where c: "c = (x, y)" by (cases c)
  with Cons.prems have ci: "(x, y) \<in> set (interior_cells g)" by simp
  from Cons.prems have "\<exists>d1. count_dependency g c d = Inr d1"
    by (auto simp: c count_dependency_interior [OF wf ci])
  then obtain d1 where d1: "count_dependency g c d = Inr d1" ..
  from Cons.IH [of d1] Cons.prems show ?case by (simp add: d1)
qed

lemma set_interior_indices: "well_formed g \<Longrightarrow> set (interior_indices g) = {i. interior g i}"
  by (auto simp: interior_indices_def interior_iff)

lemma distinct_interior_indices: "distinct (interior_indices g)"
  unfolding interior_indices_def distinct_map
proof (intro conjI inj_onI)
  show "distinct (interior_cells g)" by (rule distinct_interior_cells)
next
  fix a b assume m: "a \<in> set (interior_cells g)" "b \<in> set (interior_cells g)"
    and e: "(case a of (x, y) \<Rightarrow> xyToI g x y) = (case b of (x, y) \<Rightarrow> xyToI g x y)"
  obtain x y x' y' where ab: "a = (x, y)" "b = (x', y')" by (cases a, cases b) auto
  with m have "1 \<le> x" "x \<le> view_width g - 2" "1 \<le> x'" "x' \<le> view_width g - 2"
    by (auto simp: interior_cells_iff)
  then have "x = x' \<and> y = y'"
    using e ab by (intro xyToI_inj [of x g x' y y']) auto
  then show "a = b" by (simp add: ab)
qed

lemma count_sources:
  assumes wf: "well_formed g"
  shows "length (filter (\<lambda>(x, y). flows g (xyToI g x y) \<and> target g (xyToI g x y) = t)
           (interior_cells g)) = card (sources g t)"
proof -
  let ?P = "\<lambda>i. flows g i \<and> target g i = t"
  have "length (filter (\<lambda>(x, y). ?P (xyToI g x y)) (interior_cells g)) =
        length (filter ?P (interior_indices g))"
    by (simp add: interior_indices_def filter_map comp_def case_prod_unfold)
  also have "\<dots> = card {i \<in> set (interior_indices g). ?P i}"
    using distinct_interior_indices [of g] by (simp add: distinct_card [symmetric])
  also have "{i \<in> set (interior_indices g). ?P i} = sources g t"
    by (auto simp: set_interior_indices [OF wf] sources_def flows_def live_def)
  finally show ?thesis .
qed

lemma finite_interior: "well_formed g \<Longrightarrow> finite {i. interior g i}"
  by (metis List.finite_set set_interior_indices)

lemma finite_live: "well_formed g \<Longrightarrow> finite {i. live g i}"
  by (rule finite_subset [OF _ finite_interior]) (auto simp: live_def)

lemma finite_sources: "well_formed g \<Longrightarrow> finite (sources g t)"
  by (rule finite_subset [OF _ finite_live]) (auto simp: sources_def flows_def)

lemma card_sources_le:
  assumes wf: "well_formed g" and ok: "codes_in_range g"
  shows "card (sources g t) \<le> 8"
proof -
  have "sources g t \<subseteq> (\<lambda>n. t - nshift g n) ` {1 .. 8}"
  proof
    fix i assume "i \<in> sources g t"
    then have f: "flows g i" and t: "target g i = t" by (auto simp: sources_def)
    from flows_code [OF wf ok f] have "unat (cell g i) \<in> {1 .. 8}" by simp
    moreover have "i = t - nshift g (unat (cell g i))" using t by (simp add: target_def)
    ultimately show "i \<in> (\<lambda>n. t - nshift g n) ` {1 .. 8}" by blast
  qed
  then have "card (sources g t) \<le> card ((\<lambda>n. t - nshift g n) ` {1 .. 8 :: nat})"
    by (intro card_mono) auto
  also have "\<dots> \<le> card {1 .. 8 :: nat}" by (rule card_image_le) simp
  finally show ?thesis by simp
qed

lemma create_dependencies_result:
  assumes wf: "well_formed g" and r: "create_dependencies g = Inr ds"
  shows "codes_in_range g" and "length ds = nat (size_of g)"
    and "\<And>t. 0 \<le> t \<Longrightarrow> t < size_of g \<Longrightarrow> ds ! nat t = of_nat (card (sources g t))"
proof -
  from for_each_count [OF wf _ r [unfolded create_dependencies_def]]
  have l: "length ds = nat (size_of g)"
    and c: "\<forall>(x, y) \<in> set (interior_cells g). flows g (xyToI g x y) \<longrightarrow> unat (cell g (xyToI g x y)) \<le> 8"
    and v: "\<forall>k < nat (size_of g). ds ! k =
        of_nat (length (filter (\<lambda>(x, y). flows g (xyToI g x y) \<and> target g (xyToI g x y) = int k) (interior_cells g)))"
    by auto
  show "length ds = nat (size_of g)" by (rule l)
  show "codes_in_range g"
    unfolding codes_in_range_def
  proof (intro ballI)
    fix c assume m: "c \<in> set (interior_cells g)"
    obtain x y where e: "c = (x, y)" by (cases c)
    from c m e have "flows g (xyToI g x y) \<longrightarrow> unat (cell g (xyToI g x y)) \<le> 8" by auto
    with interior_live [OF wf m [unfolded e]]
    show "case c of (x, y) \<Rightarrow>
            \<not> isNoData g (xyToI g x y) \<longrightarrow> unat (cell g (xyToI g x y)) \<le> 8"
      by (cases "cell g (xyToI g x y) = NO_FLOW") (auto simp: e flows_def NO_FLOW_def)
  qed
  fix t :: int assume "0 \<le> t" "t < size_of g"
  with v [rule_format, of "nat t"] show "ds ! nat t = of_nat (card (sources g t))"
    by (simp add: count_sources [OF wf])
qed

lemma create_dependencies_succeeds:
  assumes wf: "well_formed g" and ok: "codes_in_range g"
  shows "\<exists>ds. create_dependencies g = Inr ds"
  unfolding create_dependencies_def
  using ok codes_in_range_iff [OF wf]
  by (intro for_each_succeeds [OF wf]) (auto simp: flows_def)

subsection \<open>Small counts as 8-bit words\<close>

lemma small_unat: "n \<le> 8 \<Longrightarrow> unat (of_nat n :: 8 word) = n"
  by (simp add: unat_of_nat)

lemma small_zero: "n \<le> 8 \<Longrightarrow> (of_nat n :: 8 word) = 0 \<longleftrightarrow> n = 0"
  by (metis small_unat unat_eq_0 of_nat_0)

lemma small_sint: "n \<le> 8 \<Longrightarrow> sint (of_nat n :: 8 word) = int n"
  by (simp add: signed_of_nat signed_take_bit_int_eq_self)

subsection \<open>The source cells and the initial state\<close>

lemma find_sources_fold:
  "fold (\<lambda>(x, y) q.
           if ds ! nat (xyToI g x y) = 0 \<and> \<not> isNoData g (xyToI g x y)
           then q @ [xyToI g x y] else q) cs acc =
   acc @ filter (\<lambda>i. ds ! nat i = 0 \<and> \<not> isNoData g i) (map (\<lambda>(x, y). xyToI g x y) cs)"
  by (induction cs arbitrary: acc) (auto split: prod.splits)

lemma find_sources_filter:
  "find_sources g ds = filter (\<lambda>i. ds ! nat i = 0 \<and> \<not> isNoData g i) (interior_indices g)"
  by (simp add: find_sources_def find_sources_fold interior_indices_def)

lemma set_find_sources:
  "well_formed g \<Longrightarrow> set (find_sources g ds) = {i. live g i \<and> ds ! nat i = 0}"
  by (auto simp: find_sources_filter set_interior_indices live_def)

lemma distinct_find_sources: "distinct (find_sources g ds)"
  by (simp add: find_sources_filter distinct_interior_indices)

lemma live_range: "live g i \<Longrightarrow> 0 \<le> i \<and> i < size_of g"
  by (simp add: live_def interior_def)

lemma initial_inv:
  assumes wf: "well_formed g" and r: "create_dependencies g = Inr ds"
  shows "scheduler_inv g (initial_state g ds)"
proof -
  note cd = create_dependencies_result [OF wf r]
  have nf: "\<not> finalized g (initial_state g ds) i" for i
    by (auto simp: finalized_def initial_state_def set_find_sources [OF wf])
  then have p: "pending_sources g (initial_state g ds) t = sources g t" for t
    by (auto simp: pending_sources_def)
  have e: "Collect (finalized g (initial_state g ds)) = {}" using nf by auto
  show ?thesis
    unfolding scheduler_inv_def p e
    using cd(2,3) live_range [of g]
    by (auto simp: initial_state_def distinct_find_sources set_find_sources [OF wf])
qed

subsection \<open>One step of the propagation loop\<close>

lemma skipped_iff_not_live:
  assumes wf: "well_formed g" and r: "0 \<le> i" "i < size_of g"
  shows "\<not> inGrid g (fst (iToxy g i)) (snd (iToxy g i)) \<or>
         isEdgeCell g (fst (iToxy g i)) (snd (iToxy g i)) \<or> isNoData g i \<longleftrightarrow> \<not> live g i"
  using iToxy_bounds [OF wf r] r
  by (auto simp: live_def interior_def split: prod.splits)

lemma propagate_cases:
  assumes wf: "well_formed g" and ok: "codes_in_range g" and l: "live g (hd (q s))"
  shows "propagate g s =
     (let ci = hd (q s); c_accum = accum s ! nat ci + 1;
          accum1 = (accum s)[nat ci := c_accum]
      in if delivers g ci then
           let ni = target g ci; d = deps s ! nat ni - 1
           in if sint d < 0 then Inl AssertionFailed
              else Inr \<lparr>accum = accum1[nat ni := accum1 ! nat ni + c_accum],
                        deps = (deps s)[nat ni := d],
                        q = (if d = 0 then tl (q s) @ [ni] else tl (q s)),
                        progress = Suc (progress s)\<rparr>
         else Inr (s\<lparr>accum := accum1, q := tl (q s), progress := Suc (progress s)\<rparr>))"
proof -
  from l have nd: "isNoData g (hd (q s)) = False" by (simp add: live_def)
  show ?thesis
  proof (cases "flows g (hd (q s))")
    case False
    with l have "cell g (hd (q s)) = NO_FLOW" "delivers g (hd (q s)) = False"
      by (auto simp: flows_def delivers_def)
    then show ?thesis by (simp add: propagate_def Let_def nd)
  next
    case True
    note n = flows_code [OF wf ok True]
    from l have i: "interior g (hd (q s))" by (simp add: live_def)
    note tr = target_range [OF wf i n [THEN conjunct1] n [THEN conjunct2]]
    note sk = skipped_iff_not_live [OF wf tr [THEN conjunct1] tr [THEN conjunct2],
        unfolded target_def]
    from True have c: "cell g (hd (q s)) = NO_FLOW \<longleftrightarrow> False" by (simp add: flows_def)
    from n have n8: "8 < unat (cell g (hd (q s))) \<longleftrightarrow> False" by simp
    from True have dl: "delivers g (hd (q s)) \<longleftrightarrow>
        live g (hd (q s) + nshift g (unat (cell g (hd (q s)))))"
      by (simp add: delivers_def target_def)
    show ?thesis
    proof (cases "live g (hd (q s) + nshift g (unat (cell g (hd (q s)))))")
      case True
      with sk have "inGrid g (fst (iToxy g (hd (q s) + nshift g (unat (cell g (hd (q s)))))))
          (snd (iToxy g (hd (q s) + nshift g (unat (cell g (hd (q s)))))))"
        "\<not> isEdgeCell g (fst (iToxy g (hd (q s) + nshift g (unat (cell g (hd (q s)))))))
          (snd (iToxy g (hd (q s) + nshift g (unat (cell g (hd (q s)))))))"
        "\<not> isNoData g (hd (q s) + nshift g (unat (cell g (hd (q s)))))"
        by auto
      with True show ?thesis
        by (simp add: propagate_def Let_def nd c n8 case_prod_unfold dl target_def)
    next
      case False
      with sk have "\<not> inGrid g (fst (iToxy g (hd (q s) + nshift g (unat (cell g (hd (q s)))))))
          (snd (iToxy g (hd (q s) + nshift g (unat (cell g (hd (q s))))))) \<or>
        isEdgeCell g (fst (iToxy g (hd (q s) + nshift g (unat (cell g (hd (q s)))))))
          (snd (iToxy g (hd (q s) + nshift g (unat (cell g (hd (q s))))))) \<or>
        isNoData g (hd (q s) + nshift g (unat (cell g (hd (q s)))))"
        by blast
      with False show ?thesis
        by (auto simp: propagate_def Let_def nd c n8 case_prod_unfold dl)
    qed
  qed
qed

lemma finite_finalized: "well_formed g \<Longrightarrow> finite {i. finalized g s i}"
  by (rule finite_subset [OF _ finite_live]) (auto simp: finalized_def)

lemma finite_pending: "well_formed g \<Longrightarrow> finite (pending_sources g s t)"
  by (rule finite_subset [OF _ finite_sources]) (auto simp: pending_sources_def)

lemma card_pending_le:
  "well_formed g \<Longrightarrow> codes_in_range g \<Longrightarrow> card (pending_sources g s t) \<le> 8"
  by (rule order_trans [OF card_mono [OF finite_sources] card_sources_le])
    (auto simp: pending_sources_def)

lemma head_facts:
  assumes inv: "scheduler_inv g s" and ne: "q s \<noteq> []"
  shows "live g (hd (q s))" "deps s ! nat (hd (q s)) = 0" "hd (q s) \<notin> set (tl (q s))"
    "\<not> finalized g s (hd (q s))" "0 \<le> hd (q s)" "hd (q s) < size_of g"
proof -
  from ne obtain c cs where e: "q s = c # cs" by (cases "q s") auto
  with inv show "live g (hd (q s))" "deps s ! nat (hd (q s)) = 0" "hd (q s) \<notin> set (tl (q s))"
    "\<not> finalized g s (hd (q s))"
    by (auto simp: scheduler_inv_def finalized_def)
  then show "0 \<le> hd (q s)" "hd (q s) < size_of g" by (auto dest: live_range)
qed

lemma step_terminal:
  assumes wf: "well_formed g" and ok: "codes_in_range g"
    and inv: "scheduler_inv g s" and ne: "q s \<noteq> []" and nd: "\<not> delivers g (hd (q s))"
  defines "s' \<equiv> s\<lparr>accum := (accum s)[nat (hd (q s)) := accum s ! nat (hd (q s)) + 1],
                    q := tl (q s), progress := Suc (progress s)\<rparr>"
  shows "propagate g s = Inr s'" "scheduler_inv g s'"
    "{i. finalized g s' i} = insert (hd (q s)) {i. finalized g s i}"
proof -
  note h = head_facts [OF inv ne]
  show "propagate g s = Inr s'"
    using nd by (simp add: propagate_cases [OF wf ok h(1)] Let_def s'_def)
  have mem: "i \<in> set (q s) \<longleftrightarrow> i = hd (q s) \<or> i \<in> set (tl (q s))" for i
    using ne by (cases "q s") auto
  have fin: "finalized g s' i \<longleftrightarrow> finalized g s i \<or> i = hd (q s)" for i
    using h mem [of i] by (auto simp: finalized_def s'_def)
  then show F: "{i. finalized g s' i} = insert (hd (q s)) {i. finalized g s i}" by auto
  have ns: "hd (q s) \<notin> sources g t" if "live g t" for t
    using nd that by (auto simp: sources_def delivers_def)
  have pend: "pending_sources g s' t = pending_sources g s t" if "live g t" for t
    using ns [OF that] fin by (auto simp: pending_sources_def)
  have "progress s' = card {i. finalized g s' i}"
    using inv h(4) finite_finalized [OF wf, of s]
    by (simp add: F) (simp add: s'_def scheduler_inv_def)
  moreover have "distinct (q s')" "\<forall>i \<in> set (q s'). live g i \<and> deps s' ! nat i = 0"
    using inv mem by (auto simp: s'_def scheduler_inv_def distinct_tl)
  moreover have "\<forall>t. live g t \<longrightarrow> deps s' ! nat t = of_nat (card (pending_sources g s' t))"
    using inv pend by (simp add: scheduler_inv_def) (simp add: s'_def)
  moreover have "\<forall>t. 0 \<le> t \<and> t < size_of g \<and> \<not> live g t \<longrightarrow>
          deps s' ! nat t = of_nat (card (sources g t)) \<and> accum s' ! nat t = 0"
  proof (intro allI impI)
    fix t assume t: "0 \<le> t \<and> t < size_of g \<and> \<not> live g t"
    with h(1,5) have "nat t \<noteq> nat (hd (q s))" by (auto simp: eq_nat_nat_iff)
    with inv t show "deps s' ! nat t = of_nat (card (sources g t)) \<and> accum s' ! nat t = 0"
      by (simp add: s'_def scheduler_inv_def)
  qed
  moreover have "length (accum s') = nat (size_of g)" "length (deps s') = nat (size_of g)"
    using inv by (simp_all add: s'_def scheduler_inv_def)
  ultimately show "scheduler_inv g s'" unfolding scheduler_inv_def by blast
qed

lemma deliver_facts:
  assumes wf: "well_formed g" and ok: "codes_in_range g"
    and inv: "scheduler_inv g s" and ne: "q s \<noteq> []" and dl: "delivers g (hd (q s))"
  defines "ni \<equiv> target g (hd (q s))"
  defines "k \<equiv> card (pending_sources g s ni)"
  shows "live g ni" "hd (q s) \<in> pending_sources g s ni" "1 \<le> k" "k \<le> 8"
    "deps s ! nat ni = of_nat k" "deps s ! nat ni \<noteq> 0" "ni \<notin> set (q s)" "ni \<noteq> hd (q s)"
    "nat ni \<noteq> nat (hd (q s))"
proof -
  note h = head_facts [OF inv ne]
  show l: "live g ni" using dl by (simp add: delivers_def ni_def)
  show p: "hd (q s) \<in> pending_sources g s ni"
    using dl h(4) by (simp add: pending_sources_def sources_def delivers_def ni_def)
  then have "card (pending_sources g s ni) \<noteq> 0"
    using finite_pending [OF wf, of s ni] by auto
  then show k1: "1 \<le> k" by (simp add: k_def)
  show k8: "k \<le> 8" unfolding k_def by (rule card_pending_le [OF wf ok])
  show d: "deps s ! nat ni = of_nat k" using inv l by (simp add: scheduler_inv_def k_def)
  show d0: "deps s ! nat ni \<noteq> 0" using k1 k8 by (simp add: d small_zero)
  then show nq: "ni \<notin> set (q s)" using inv by (auto simp: scheduler_inv_def)
  with ne show "ni \<noteq> hd (q s)" by auto
  with h(5) live_range [OF l] show "nat ni \<noteq> nat (hd (q s))" by auto
qed

lemma step_deliver:
  assumes wf: "well_formed g" and ok: "codes_in_range g"
    and inv: "scheduler_inv g s" and ne: "q s \<noteq> []" and dl: "delivers g (hd (q s))"
  defines "ci \<equiv> hd (q s)"
  defines "ni \<equiv> target g (hd (q s))"
  defines "d \<equiv> deps s ! nat (target g (hd (q s))) - 1"
  defines "s' \<equiv> \<lparr>accum = (accum s)[nat ci := accum s ! nat ci + 1,
                      nat ni := accum s ! nat ni + (accum s ! nat ci + 1)],
                   deps = (deps s)[nat ni := d],
                   q = (if d = 0 then tl (q s) @ [ni] else tl (q s)),
                   progress = Suc (progress s)\<rparr>"
  shows "propagate g s = Inr s'" "scheduler_inv g s'"
    "{i. finalized g s' i} = insert (hd (q s)) {i. finalized g s i}"
proof -
  note h = head_facts [OF inv ne]
  note f = deliver_facts [OF wf ok inv ne dl, folded ni_def]
  define k where "k = card (pending_sources g s ni)"
  note f' = f [folded k_def]
  have dk: "d = of_nat (k - 1)"
    using f'(3) by (simp add: d_def f'(5) [unfolded ni_def])
  have "(of_nat (k - 1) :: 8 word) = 0 \<longleftrightarrow> k - 1 = 0"
    using f'(4) by (intro small_zero) simp
  then have d0: "d = 0 \<longleftrightarrow> k = 1"
    using f'(3) unfolding dk by auto
  have "sint d = int (k - 1)" using f'(4) by (simp add: dk small_sint)
  then have sd: "\<not> sint d < 0" by simp
  have len: "length (accum s) = nat (size_of g)" "length (deps s) = nat (size_of g)"
    using inv by (simp_all add: scheduler_inv_def)
  have rn: "nat ni < nat (size_of g)" using live_range [OF f(1)] by auto
  show "propagate g s = Inr s'"
    using dl sd f(9)
    by (simp add: propagate_cases [OF wf ok h(1)] Let_def s'_def d_def ni_def ci_def)
  have mem: "i \<in> set (q s) \<longleftrightarrow> i = ci \<or> i \<in> set (tl (q s))" for i
    using ne by (cases "q s") (auto simp: ci_def)
  have qs': "set (q s') = (if d = 0 then insert ni (set (tl (q s))) else set (tl (q s)))"
    by (simp add: s'_def)
  have dni: "deps s' ! nat ni = d" using len rn by (simp add: s'_def)
  have doth: "deps s' ! nat i = deps s ! nat i" if "live g i" "i \<noteq> ni" for i
  proof -
    from that live_range [OF f(1)] live_range [OF that(1)] have "nat i \<noteq> nat ni" by auto
    then show ?thesis by (simp add: s'_def)
  qed
  have fin: "finalized g s' i \<longleftrightarrow> finalized g s i \<or> i = ci" for i
  proof (cases "i = ni")
    case True
    then show ?thesis
      using f(6,8) dni by (auto simp: finalized_def qs' ci_def)
  next
    case False
    show ?thesis
    proof (cases "live g i")
      case True
      from doth [OF True False] True False h(2,3) mem [of i] show ?thesis
        by (auto simp: finalized_def qs' ci_def)
    next
      case False
      with h(1) show ?thesis by (auto simp: finalized_def ci_def)
    qed
  qed
  then show F: "{i. finalized g s' i} = insert (hd (q s)) {i. finalized g s i}"
    by (auto simp: ci_def)
  have pend: "pending_sources g s' t = pending_sources g s t - {ci}" for t
    using fin by (auto simp: pending_sources_def)
  have "progress s' = card {i. finalized g s' i}"
    using inv h(4) finite_finalized [OF wf, of s]
    by (simp add: F) (simp add: s'_def scheduler_inv_def)
  moreover have "distinct (q s')"
    using inv f(7) mem by (auto simp: s'_def scheduler_inv_def distinct_tl)
  moreover have "\<forall>i \<in> set (q s'). live g i \<and> deps s' ! nat i = 0"
  proof
    fix i assume i: "i \<in> set (q s')"
    show "live g i \<and> deps s' ! nat i = 0"
    proof (cases "i = ni")
      case True
      with i f(7) mem [of ni] have "d = 0" by (auto simp: qs' split: if_splits)
      with True f(1) dni show ?thesis by simp
    next
      case False
      with i have "i \<in> set (q s)" using mem [of i] by (auto simp: qs' split: if_splits)
      with inv have "live g i" "deps s ! nat i = 0" by (auto simp: scheduler_inv_def)
      with doth [OF _ False] show ?thesis by simp
    qed
  qed
  moreover have "\<forall>t. live g t \<longrightarrow> deps s' ! nat t = of_nat (card (pending_sources g s' t))"
  proof (intro allI impI)
    fix t assume t: "live g t"
    show "deps s' ! nat t = of_nat (card (pending_sources g s' t))"
    proof (cases "t = ni")
      case True
      have "card (pending_sources g s ni - {ci}) = k - 1"
        using f(2) finite_pending [OF wf, of s ni] by (simp add: k_def ci_def)
      then show ?thesis by (simp add: True dni pend dk)
    next
      case False
      then have "ci \<notin> sources g t" by (auto simp: sources_def ni_def ci_def)
      then have "pending_sources g s t - {ci} = pending_sources g s t"
        by (auto simp: pending_sources_def)
      with inv t doth [OF t False] show ?thesis by (simp add: pend scheduler_inv_def)
    qed
  qed
  moreover have "\<forall>t. 0 \<le> t \<and> t < size_of g \<and> \<not> live g t \<longrightarrow>
          deps s' ! nat t = of_nat (card (sources g t)) \<and> accum s' ! nat t = 0"
  proof (intro allI impI)
    fix t assume t: "0 \<le> t \<and> t < size_of g \<and> \<not> live g t"
    with h(1,5) have "nat t \<noteq> nat ci" by (auto simp: ci_def eq_nat_nat_iff)
    moreover from t f(1) live_range [OF f(1)] have "nat t \<noteq> nat ni"
      by (auto simp: eq_nat_nat_iff)
    ultimately show "deps s' ! nat t = of_nat (card (sources g t)) \<and> accum s' ! nat t = 0"
      using inv t by (simp add: s'_def scheduler_inv_def)
  qed
  moreover have "length (accum s') = nat (size_of g)" "length (deps s') = nat (size_of g)"
    using len by (simp_all add: s'_def)
  ultimately show "scheduler_inv g s'" unfolding scheduler_inv_def by blast
qed

subsection \<open>Reachable states and termination\<close>

lemma step_inv:
  assumes wf: "well_formed g" and ok: "codes_in_range g"
    and inv: "scheduler_inv g s" and ne: "q s \<noteq> []"
  shows "\<exists>s'. propagate g s = Inr s' \<and> scheduler_inv g s' \<and>
           {i. finalized g s' i} = insert (hd (q s)) {i. finalized g s i}"
proof (cases "delivers g (hd (q s))")
  case True
  from step_deliver [OF wf ok inv ne True] show ?thesis by blast
next
  case False
  from step_terminal [OF wf ok inv ne False] show ?thesis by blast
qed

lemma reachable_codes:
  assumes wf: "well_formed g" and r: "reachable g s"
  shows "codes_in_range g"
  using r by (induction rule: reachable.induct) (auto dest: create_dependencies_result(1) [OF wf])

lemma reachable_inv:
  assumes wf: "well_formed g" and r: "reachable g s"
  shows "scheduler_inv g s"
  using r
proof (induction rule: reachable.induct)
  case (start ds)
  then show ?case by (rule initial_inv [OF wf])
next
  case (step s s')
  from step_inv [OF wf reachable_codes [OF wf step.hyps(1)] step.IH step.hyps(2)] step.hyps(3)
  show ?case by auto
qed

lemma drain_from_inv:
  assumes wf: "well_formed g" and ok: "codes_in_range g"
  shows "scheduler_inv g s \<Longrightarrow> reachable g s \<Longrightarrow>
     \<exists>s'. drain g s = Some (Inr s') \<and> reachable g s' \<and> q s' = []"
proof (induction "card ({i. live g i} - {i. finalized g s i})" arbitrary: s rule: less_induct)
  case less
  show ?case
  proof (cases "q s = []")
    case True
    with less.prems show ?thesis by (subst drain.simps) simp
  next
    case False
    from step_inv [OF wf ok less.prems(1) False] obtain s' where
      p: "propagate g s = Inr s'" and i: "scheduler_inv g s'"
      and F: "{i. finalized g s' i} = insert (hd (q s)) {i. finalized g s i}" by blast
    note h = head_facts [OF less.prems(1) False]
    have "{i. live g i} - {i. finalized g s' i} \<subset> {i. live g i} - {i. finalized g s i}"
      using h(1,4) unfolding F by auto
    then have "card ({i. live g i} - {i. finalized g s' i}) <
               card ({i. live g i} - {i. finalized g s i})"
      by (intro psubset_card_mono finite_Diff finite_live [OF wf])
    from less.hyps [OF this i reachable.step [OF less.prems(2) False p]]
    show ?thesis using False p by (subst drain.simps) simp
  qed
qed

lemma create_dependencies_error:
  "create_dependencies g = Inl e \<Longrightarrow> e = TableIndexOutOfRange"
proof -
  have "for_each (count_dependency g) cs d = Inl e \<Longrightarrow> e = TableIndexOutOfRange" for cs d
    by (induction cs arbitrary: d)
      (auto simp: count_dependency_def Let_def split: sum.splits if_splits prod.splits)
  then show "create_dependencies g = Inl e \<Longrightarrow> e = TableIndexOutOfRange"
    by (simp add: create_dependencies_def)
qed

lemma run_scheduler_result:
  assumes wf: "well_formed g"
  shows "if codes_in_range g
         then \<exists>s. run_scheduler g = Some (Inr s) \<and> reachable g s \<and> q s = []
         else run_scheduler g = Some (Inl TableIndexOutOfRange)"
proof (cases "codes_in_range g")
  case True
  from create_dependencies_succeeds [OF wf True] obtain ds
    where ds: "create_dependencies g = Inr ds" ..
  have r: "reachable g (initial_state g ds)" by (rule reachable.start [OF ds])
  from drain_from_inv [OF wf True reachable_inv [OF wf r] r] True ds
  show ?thesis by (simp add: run_scheduler_def)
next
  case False
  with create_dependencies_result(1) [OF wf]
  obtain e where "create_dependencies g = Inl e" by (cases "create_dependencies g") auto
  with create_dependencies_error [OF this] False show ?thesis
    by (simp add: run_scheduler_def)
qed

subsection \<open>The no-data sweep\<close>

lemma stamp_fold:
  assumes j: "0 \<le> j"
  shows "\<forall>i \<in> set ixs. 0 \<le> i \<Longrightarrow> nat j < length acc \<Longrightarrow>
     length (fold (\<lambda>i a. if isNoData g i then a[nat i := v] else a) ixs acc) = length acc \<and>
     fold (\<lambda>i a. if isNoData g i then a[nat i := v] else a) ixs acc ! nat j =
       (if j \<in> set ixs \<and> isNoData g j then v else acc ! nat j)"
proof (induction ixs arbitrary: acc)
  case Nil
  then show ?case by simp
next
  case (Cons a ixs)
  from Cons.prems j have e: "nat a = nat j \<longleftrightarrow> a = j" by (simp add: eq_nat_nat_iff)
  show ?case
  proof (cases "isNoData g a")
    case False
    with Cons.IH [of acc] Cons.prems show ?thesis by auto
  next
    case True
    with Cons.IH [of "acc[nat a := v]"] Cons.prems e show ?thesis
      by (auto simp: nth_list_update)
  qed
qed

lemma stamp_no_data_nth:
  assumes "0 \<le> j" "j < size_of g" "length acc = nat (size_of g)"
  shows "stamp_no_data g acc ! nat j =
     (if isNoData g j then ucast (no_data g) else acc ! nat j)"
  using assms stamp_fold [of j "[0 .. size_of g - 1]" acc g "ucast (no_data g)"]
  by (auto simp: stamp_no_data_def)

lemma flow_accumulation_from_d8_result:
  "flow_accumulation_from_d8 a g = Some (Inr out) \<longleftrightarrow>
     (\<exists>s. run_scheduler g = Some (Inr s) \<and>
          out = \<lparr>view_width = view_width g, view_height = view_height g,
                 data = stamp_no_data g (accum s), no_data = a\<rparr>)"
  by (auto simp: flow_accumulation_from_d8_def make_from_template_def
      split: option.splits sum.splits)

lemma run_scheduler_reachable:
  assumes wf: "well_formed g" and r: "run_scheduler g = Some (Inr s)"
  shows "reachable g s" "q s = []" "codes_in_range g"
  using run_scheduler_result [OF wf] r by (auto split: if_splits)

subsection \<open>Cycles and acyclic flow fields\<close>

lemma flow_edges_live: "(i, j) \<in> flow_edges g \<Longrightarrow> live g i \<and> live g j"
  by (auto simp: flow_edges_def delivers_def flows_def)

lemma flow_edges_source: "(i, j) \<in> flow_edges g \<Longrightarrow> i \<in> sources g j"
  by (auto simp: flow_edges_def delivers_def sources_def)

lemma finite_flow_edges: "well_formed g \<Longrightarrow> finite (flow_edges g)"
  by (rule finite_subset [OF _ finite_cartesian_product [OF finite_live finite_live]])
    (auto dest: flow_edges_live)

lemma cycle_predecessor:
  assumes "on_cycle g c"
  shows "\<exists>p. on_cycle g p \<and> (p, c) \<in> flow_edges g"
proof -
  from assms obtain p where a: "(c, p) \<in> (flow_edges g)\<^sup>*" and b: "(p, c) \<in> flow_edges g"
    unfolding on_cycle_def by (blast dest: tranclD2)
  from b a have "(p, p) \<in> (flow_edges g)\<^sup>+" by (rule rtrancl_into_trancl2)
  with b show ?thesis unfolding on_cycle_def by blast
qed

lemma pending_nonzero:
  assumes wf: "well_formed g" and ok: "codes_in_range g" and inv: "scheduler_inv g s"
    and l: "live g t"
  shows "deps s ! nat t \<noteq> 0 \<longleftrightarrow> pending_sources g s t \<noteq> {}"
proof -
  from inv l have "deps s ! nat t = of_nat (card (pending_sources g s t))"
    by (simp add: scheduler_inv_def)
  then show ?thesis
    using card_pending_le [OF wf ok, of s t] finite_pending [OF wf, of s t]
    by (simp add: small_zero)
qed

lemma all_finalized_when_acyclic:
  assumes wf: "well_formed g" and ok: "codes_in_range g" and inv: "scheduler_inv g s"
    and e: "q s = []" and ac: "acyclic (flow_edges g)" and l: "live g i"
  shows "finalized g s i"
proof (rule ccontr)
  assume n: "\<not> finalized g s i"
  let ?U = "{i. live g i \<and> \<not> finalized g s i}"
  have "wf (flow_edges g)" by (rule finite_acyclic_wf [OF finite_flow_edges [OF wf] ac])
  moreover from l n have "i \<in> ?U" by simp
  ultimately obtain z where z: "z \<in> ?U" and m: "\<And>y. (y, z) \<in> flow_edges g \<Longrightarrow> y \<notin> ?U"
    by (rule wfE_min) blast
  from z e have "deps s ! nat z \<noteq> 0" by (auto simp: finalized_def)
  with pending_nonzero [OF wf ok inv] z obtain y where y: "y \<in> pending_sources g s z" by auto
  with z have "(y, z) \<in> flow_edges g" "y \<in> ?U"
    by (auto simp: pending_sources_def sources_def flow_edges_def delivers_def flows_def)
  with m show False by blast
qed

lemma cycle_cells_wait:
  assumes wf: "well_formed g" and r: "reachable g s" and c: "on_cycle g c"
  shows "deps s ! nat c \<noteq> 0"
  using r c
proof (induction arbitrary: c rule: reachable.induct)
  case (start ds)
  from cycle_predecessor [OF start.prems] obtain p where p: "(p, c) \<in> flow_edges g" by blast
  note cd = create_dependencies_result [OF wf start.hyps]
  from p have "p \<in> sources g c" by (rule flow_edges_source)
  then have "card (sources g c) \<noteq> 0" using finite_sources [OF wf, of c] by auto
  moreover from flow_edges_live [OF p] have "0 \<le> c" "c < size_of g"
    by (auto dest: live_range)
  ultimately show ?case
    using cd(3) [of c] card_sources_le [OF wf cd(1), of c]
    by (simp add: initial_state_def small_zero)
next
  case (step s s')
  note ok = reachable_codes [OF wf step.hyps(1)]
  note inv = reachable_inv [OF wf step.hyps(1)]
  note h = head_facts [OF inv step.hyps(2)]
  from cycle_predecessor [OF step.prems] obtain p
    where pc: "on_cycle g p" and p: "(p, c) \<in> flow_edges g" by blast
  note lc = flow_edges_live [OF p]
  show ?case
  proof (cases "delivers g (hd (q s))")
    case False
    from step_terminal(1) [OF wf ok inv step.hyps(2) False] step.hyps(3) step.IH [OF step.prems]
    show ?thesis by auto
  next
    case True
    note f = deliver_facts [OF wf ok inv step.hyps(2) True]
    from step_deliver(1) [OF wf ok inv step.hyps(2) True] step.hyps(3)
    have d: "deps s' = (deps s)[nat (target g (hd (q s))) :=
                deps s ! nat (target g (hd (q s))) - 1]" by auto
    show ?thesis
    proof (cases "c = target g (hd (q s))")
      case False
      with lc f(1) have "nat c \<noteq> nat (target g (hd (q s)))"
        by (auto simp: eq_nat_nat_iff dest!: live_range)
      with step.IH [OF step.prems] show ?thesis by (simp add: d)
    next
      case c: True
      have "deps s ! nat p \<noteq> 0" by (rule step.IH [OF pc])
      with h(2) have ne: "p \<noteq> hd (q s)" by auto
      from \<open>deps s ! nat p \<noteq> 0\<close> p have pp: "p \<in> pending_sources g s c"
        by (auto simp: pending_sources_def finalized_def dest: flow_edges_source)
      have "{p, hd (q s)} \<subseteq> pending_sources g s c" using pp f(2) c by simp
      from card_mono [OF finite_pending [OF wf] this] ne
      have k2: "2 \<le> card (pending_sources g s c)" by simp
      have k8: "card (pending_sources g s c) \<le> 8" by (rule card_pending_le [OF wf ok])
      have len: "nat c < length (deps s)"
        using inv lc by (auto simp: scheduler_inv_def dest!: live_range)
      have "(of_nat (card (pending_sources g s c) - 1) :: 8 word) \<noteq> 0"
        using k2 k8 by (subst small_zero) auto
      moreover have "deps s ! nat c = of_nat (card (pending_sources g s c))"
        using inv lc by (simp add: scheduler_inv_def)
      ultimately show ?thesis using len k2 by (simp add: d c [symmetric])
    qed
  qed
qed


subsection \<open>Conservation\<close>






subsection \<open>The range of the dependency counts\<close>

lemma small_range: "n \<le> 8 \<Longrightarrow> 0 \<le> sint (of_nat n :: 8 word) \<and> sint (of_nat n :: 8 word) \<le> 8"
  by (simp add: small_sint)

lemma prefix_count_le:
  assumes wf: "well_formed g" and d: "distinct cs"
    and sub: "\<forall>c \<in> set cs. c \<in> set (interior_cells g)"
    and ok: "\<forall>(x, y) \<in> set cs. flows g (xyToI g x y) \<longrightarrow> unat (cell g (xyToI g x y)) \<le> 8"
  shows "length (filter (\<lambda>(x, y). flows g (xyToI g x y) \<and> target g (xyToI g x y) = t) cs) \<le> 8"
proof -
  let ?f = "\<lambda>(x, y). xyToI g x y"
  let ?S = "{c \<in> set cs. case c of (x, y) \<Rightarrow> flows g (xyToI g x y) \<and> target g (xyToI g x y) = t}"
  have "length (filter (\<lambda>(x, y). flows g (xyToI g x y) \<and> target g (xyToI g x y) = t) cs) = card ?S"
    using d by (simp add: distinct_length_filter Int_def conj_commute)
  also have "\<dots> = card (?f ` ?S)"
  proof (rule card_image [symmetric], rule inj_onI)
    fix a b assume "a \<in> ?S" "b \<in> ?S" and e: "?f a = ?f b"
    with sub have m: "a \<in> set (interior_cells g)" "b \<in> set (interior_cells g)" by auto
    obtain x y x' y' where ab: "a = (x, y)" "b = (x', y')" by (cases a, cases b) auto
    with m have "1 \<le> x" "x \<le> view_width g - 2" "1 \<le> x'" "x' \<le> view_width g - 2"
      by (auto simp: interior_cells_iff)
    then have "x = x' \<and> y = y'"
      using e ab by (intro xyToI_inj [of x g x' y y']) auto
    then show "a = b" by (simp add: ab)
  qed
  also have "\<dots> \<le> card ((\<lambda>n. t - nshift g n) ` {1 .. 8 :: nat})"
  proof (rule card_mono)
    show "?f ` ?S \<subseteq> (\<lambda>n. t - nshift g n) ` {1 .. 8}"
    proof
      fix i assume "i \<in> ?f ` ?S"
      then obtain x y where c: "(x, y) \<in> set cs" and i: "i = xyToI g x y"
        and f: "flows g i" and t: "target g i = t" by auto
      from ok c f i have "unat (cell g i) \<le> 8" by auto
      moreover from f have "1 \<le> unat (cell g i)"
        by (auto simp: flows_def NO_FLOW_def Suc_le_eq unat_gt_0)
      ultimately have "unat (cell g i) \<in> {1 .. 8}" by simp
      moreover have "i = t - nshift g (unat (cell g i))" using t by (simp add: target_def)
      ultimately show "i \<in> (\<lambda>n. t - nshift g n) ` {1 .. 8}" by blast
    qed
  qed simp
  also have "\<dots> \<le> card {1 .. 8 :: nat}" by (rule card_image_le) simp
  finally show ?thesis by simp
qed

lemma prefix_counts_in_range:
  assumes wf: "well_formed g"
    and r: "for_each (count_dependency g) (take k (interior_cells g))
              (replicate (nat (size_of g)) 0) = Inr ds"
    and m: "d \<in> set ds"
  shows "0 \<le> sint d \<and> sint d \<le> 8"
proof -
  let ?cs = "take k (interior_cells g)"
  have sub: "\<forall>c \<in> set ?cs. c \<in> set (interior_cells g)" by (auto dest: in_set_takeD)
  from for_each_count [OF wf sub r]
  have l: "length ds = nat (size_of g)"
    and c: "\<forall>(x, y) \<in> set ?cs. flows g (xyToI g x y) \<longrightarrow> unat (cell g (xyToI g x y)) \<le> 8"
    and v: "\<forall>j < nat (size_of g). ds ! j =
        of_nat (length (filter (\<lambda>(x, y). flows g (xyToI g x y) \<and> target g (xyToI g x y) = int j) ?cs))"
    by auto
  from m obtain j where j: "j < length ds" "d = ds ! j" by (auto simp: in_set_conv_nth)
  have "length (filter (\<lambda>(x, y). flows g (xyToI g x y) \<and> target g (xyToI g x y) = int j) ?cs) \<le> 8"
    by (rule prefix_count_le [OF wf distinct_take [OF distinct_interior_cells] sub c])
  from small_range [OF this] j v l show ?thesis by simp
qed

lemma reachable_counts_in_range:
  assumes wf: "well_formed g" and r: "reachable g s" and m: "d \<in> set (deps s)"
  shows "0 \<le> sint d \<and> sint d \<le> 8"
proof -
  note ok = reachable_codes [OF wf r]
  note inv = reachable_inv [OF wf r]
  from m obtain j where j: "j < length (deps s)" "d = deps s ! j"
    by (auto simp: in_set_conv_nth)
  with inv have jr: "0 \<le> int j" "int j < size_of g" by (auto simp: scheduler_inv_def)
  show ?thesis
  proof (cases "live g (int j)")
    case True
    from inv have "\<forall>t. live g t \<longrightarrow>
          deps s ! nat t = of_nat (card (pending_sources g s t))"
      by (simp add: scheduler_inv_def)
    from this [rule_format, of "int j"] True j
    have "d = of_nat (card (pending_sources g s (int j)))" by simp
    with small_range [OF card_pending_le [OF wf ok, of s "int j"]] show ?thesis by simp
  next
    case False
    from inv have "\<forall>t. 0 \<le> t \<and> t < size_of g \<and> \<not> live g t \<longrightarrow>
          deps s ! nat t = of_nat (card (sources g t)) \<and> accum s ! nat t = 0"
      by (simp add: scheduler_inv_def)
    from this [rule_format, of "int j"] False jr j
    have "d = of_nat (card (sources g (int j)))" by simp
    with small_range [OF card_sources_le [OF wf ok, of "int j"]] show ?thesis by simp
  qed
qed

lemma run_scheduler_no_assertion:
  "well_formed g \<Longrightarrow> run_scheduler g \<noteq> Some (Inl AssertionFailed)"
  using run_scheduler_result [of g] by (auto split: if_splits)

lemma inv_pending:
  assumes wf: "well_formed g" and ok: "codes_in_range g" and inv: "scheduler_inv g s"
    and l: "live g t"
  shows "unat (deps s ! nat t) = card {i \<in> sources g t. \<not> finalized g s i}"
proof -
  from inv l have "deps s ! nat t = of_nat (card (pending_sources g s t))"
    by (simp add: scheduler_inv_def)
  with small_unat [OF card_pending_le [OF wf ok, of s t]] show ?thesis
    by (simp add: pending_sources_def)
qed

subsection \<open>Edge cells and no-data cells in the result\<close>

lemma live_not_edge:
  assumes "inGrid g x y" "isEdgeCell g x y"
  shows "\<not> live g (xyToI g x y)"
  using assms iToxy_xyToI [of x g y] by (auto simp: live_def interior_def inGrid_def)

lemma live_indices:
  "well_formed g \<Longrightarrow> live g i \<longleftrightarrow> i \<in> set (interior_indices g) \<and> \<not> isNoData g i"
  by (simp add: set_interior_indices live_def)

lemma stamped_value:
  assumes wf: "well_formed g" and o: "flow_accumulation_from_d8 a g = Some (Inr out)"
    and i: "0 \<le> i" "i < size_of g" "isNoData g i"
  shows "data out ! nat i = ucast (no_data g)" "no_data out = a"
proof -
  from o obtain s where s: "run_scheduler g = Some (Inr s)"
    and d: "out = \<lparr>view_width = view_width g, view_height = view_height g,
                 data = stamp_no_data g (accum s), no_data = a\<rparr>"
    by (auto simp: flow_accumulation_from_d8_result)
  from reachable_inv [OF wf run_scheduler_reachable(1) [OF wf s]]
  have "length (accum s) = nat (size_of g)" by (simp add: scheduler_inv_def)
  from stamp_no_data_nth [OF i(1,2) this] i(3) d
  show "data out ! nat i = ucast (no_data g)" "no_data out = a" by simp_all
qed

subsection \<open>The example rasters\<close>

lemma west3_well_formed: "well_formed west3"
  by (simp add: well_formed_def west3_def)

lemma west3_dependencies: "create_dependencies west3 = Inr [0, 0, 0, 1, 0, 0, 0, 0, 0]"
  by code_simp

lemma west3_first_step:
  "initial_state west3 [0, 0, 0, 1, 0, 0, 0, 0, 0] =
     \<lparr>accum = [0, 0, 0, 0, 0, 0, 0, 0, 0], deps = [0, 0, 0, 1, 0, 0, 0, 0, 0],
      q = [4], progress = 0\<rparr>"
  "propagate west3 \<lparr>accum = [0, 0, 0, 0, 0, 0, 0, 0, 0], deps = [0, 0, 0, 1, 0, 0, 0, 0, 0],
      q = [4], progress = 0\<rparr> =
     Inr \<lparr>accum = [0, 0, 0, 0, 1, 0, 0, 0, 0], deps = [0, 0, 0, 1, 0, 0, 0, 0, 0],
      q = [], progress = Suc 0\<rparr>"
  by code_simp+

lemma west3_reachable:
  "reachable west3 \<lparr>accum = [0, 0, 0, 0, 1, 0, 0, 0, 0], deps = [0, 0, 0, 1, 0, 0, 0, 0, 0],
      q = [], progress = Suc 0\<rparr>"
proof -
  have "reachable west3 (initial_state west3 [0, 0, 0, 1, 0, 0, 0, 0, 0])"
    by (rule reachable.start [OF west3_dependencies])
  then show ?thesis
    by (rule reachable.step) (simp_all add: west3_first_step)
qed

lemma west3_run:
  "run_scheduler west3 =
     Some (Inr \<lparr>accum = [0, 0, 0, 0, 1, 0, 0, 0, 0], deps = [0, 0, 0, 1, 0, 0, 0, 0, 0],
      q = [], progress = Suc 0\<rparr>)"
  by code_simp

lemma west3_result:
  "flow_accumulation_from_d8 (- 1) west3 =
     Some (Inr \<lparr>view_width = 3, view_height = 3,
                data = [0, 0, 0, 0, 1, 0, 0, 0, 0], no_data = - 1\<rparr>)"
  by code_simp

lemma two_cycle_well_formed: "well_formed two_cycle"
  by (simp add: well_formed_def two_cycle_def)

lemma two_cycle_codes: "codes_in_range two_cycle"
  by code_simp

lemma two_cycle_run:
  "run_scheduler two_cycle =
     Some (Inr \<lparr>accum = [0, 0, 0, 0, 0, 0, 0, 0, 0, 0, 0, 0],
                deps = [0, 0, 0, 0, 0, 1, 1, 0, 0, 0, 0, 0], q = [], progress = 0\<rparr>)"
  by code_simp

lemma two_cycle_edges: "(5, 6) \<in> flow_edges two_cycle" "(6, 5) \<in> flow_edges two_cycle"
  unfolding flow_edges_def mem_Collect_eq prod.case by code_simp+

lemma two_cycle_on_cycle: "on_cycle two_cycle 5"
  unfolding on_cycle_def using two_cycle_edges by (blast intro: trancl.intros)







lemma chain5_well_formed: "well_formed chain5"
  by (simp add: well_formed_def chain5_def)

lemma chain5_codes: "codes_in_range chain5"
  by code_simp

lemma chain5_dependencies:
  "create_dependencies chain5 = Inr [0, 0, 0, 0, 0, 0, 0, 1, 1, 0, 0, 0, 0, 0, 0]"
  by code_simp

lemma chain5_run:
  "run_scheduler chain5 =
     Some (Inr \<lparr>accum = [0, 0, 0, 0, 0, 0, 1, 2, 3, 0, 0, 0, 0, 0, 0],
                deps = [0, 0, 0, 0, 0, 0, 0, 0, 0, 0, 0, 0, 0, 0, 0],
                q = [], progress = 3\<rparr>)"
  by code_simp


lemma nine_cells: "0 \<le> i \<and> i < 9 \<longleftrightarrow> i \<in> {0, 1, 2, 3, 4 :: int} \<union> {5, 6, 7, 8}"
  by auto






lemma chain5_interior: "interior_indices chain5 = [6, 7, 8]"
  by code_simp

lemma chain5_live: "live chain5 i \<longleftrightarrow> i \<in> {6, 7, 8}"
proof -
  have "\<not> isNoData chain5 6" "\<not> isNoData chain5 7" "\<not> isNoData chain5 8" by code_simp+
  then show ?thesis by (auto simp: live_indices [OF chain5_well_formed] chain5_interior)
qed

lemma chain5_acyclic: "acyclic (flow_edges chain5)"
proof (rule acyclicI_order [where f = uminus])
  fix i j assume "(i, j) \<in> flow_edges chain5"
  then have d: "flows chain5 i" "j = target chain5 i"
    by (auto simp: flow_edges_def delivers_def)
  then have "i \<in> {6, 7, 8}" by (simp add: flows_def chain5_live)
  moreover have "target chain5 6 = 7" "target chain5 7 = 8" "\<not> flows chain5 8"
    by code_simp+
  ultimately show "- j < - i" using d by auto
qed


lemma west3_claimed_edges: "claimed_edges west3 \<subseteq> {(4, 3)}"
proof
  fix e assume "e \<in> claimed_edges west3"
  then obtain i j where e: "e = (i, j)" and h: "has_data west3 i"
    and t: "\<not> claimed_terminal west3 i" and n: "neighbour west3 i = Some j"
    by (auto simp: claimed_edges_def)
  from h have "0 \<le> i \<and> i < 9" by (simp add: has_data_def size_of_def west3_def)
  then have "i \<in> {0, 1, 2, 3, 4} \<union> {5, 6, 7, 8}" by (simp only: nine_cells)
  moreover from h t have "cell west3 i \<noteq> 0" by (auto simp: claimed_terminal_def NO_FLOW_def)
  ultimately have "i = 4" by (auto simp: cell_def west3_def)
  moreover have "neighbour west3 4 = Some 3" by code_simp
  ultimately show "e \<in> {(4, 3)}" using n e by simp
qed

lemma west3_claimed_acyclic: "acyclic (claimed_edges west3)"
  by (rule acyclicI_order [where f = "\<lambda>i. i"]) (use west3_claimed_edges in auto)

section \<open>The claims\<close>

text \<open>
  Claim C1, as amended. The routine has no cycle detection. Whenever the codes of the
  interior data cells are direction codes, the loop ends with an empty queue and the
  routine returns the accumulation raster built from the registers as they stand, also
  when cells on a cycle are left with nonzero dependency counts.
\<close>

theorem cycle_not_reported:
  assumes "well_formed g" and "codes_in_range g"
  shows "\<exists>s. run_scheduler g = Some (Inr s) \<and> q s = [] \<and>
           (\<forall>c. on_cycle g c \<longrightarrow> deps s ! nat c \<noteq> 0) \<and>
           flow_accumulation_from_d8 a g =
             Some (Inr \<lparr>view_width = view_width g, view_height = view_height g,
                        data = stamp_no_data g (accum s), no_data = a\<rparr>)"
proof -
  from run_scheduler_result [OF assms(1)] assms(2) obtain s
    where s: "run_scheduler g = Some (Inr s)" "reachable g s" "q s = []" by auto
  with cycle_cells_wait [OF assms(1) s(2)] show ?thesis
    by (auto simp: flow_accumulation_from_d8_result)
qed

theorem cycle_not_reported_witness:
  "well_formed two_cycle \<and> codes_in_range two_cycle \<and> on_cycle two_cycle 6 \<and>
   (\<exists>s. run_scheduler two_cycle = Some (Inr s) \<and> q s = [] \<and> deps s ! nat 6 \<noteq> 0 \<and>
        flow_accumulation_from_d8 (- 1) two_cycle =
          Some (Inr \<lparr>view_width = view_width two_cycle, view_height = view_height two_cycle,
                     data = stamp_no_data two_cycle (accum s), no_data = - 1\<rparr>))"
proof -
  have c: "on_cycle two_cycle 6"
    unfolding on_cycle_def using two_cycle_edges by (blast intro: trancl.intros)
  from cycle_not_reported [OF two_cycle_well_formed two_cycle_codes, of "- 1"] c
  show ?thesis using two_cycle_well_formed two_cycle_codes by blast
qed

theorem cycle_counterexample:
  "run_scheduler two_cycle =
     Some (Inr \<lparr>accum = [0, 0, 0, 0, 0, 0, 0, 0, 0, 0, 0, 0],
                deps = [0, 0, 0, 0, 0, 1, 1, 0, 0, 0, 0, 0], q = [], progress = 0\<rparr>) \<and>
   flow_accumulation_from_d8 (- 1) two_cycle =
     Some (Inr \<lparr>view_width = 4, view_height = 3,
                data = [0, 0, 0, 0, 0, 0, 0, 0, 0, 0, 0, 0], no_data = - 1\<rparr>)"
  by code_simp

text \<open>
  Claim C2. At a no-data cell of the input the returned raster holds the input raster's
  sentinel (converted to 32 bits), while the sentinel declared for the returned raster
  is \<^verbatim>\<open>ACCUM_NO_DATA\<close>. On the raster \<open>hole4\<close>, whose sentinel is 255, with
  \<^verbatim>\<open>ACCUM_NO_DATA\<close> \<open>= -1\<close>, the no-data cell 5 comes back as 255.
\<close>

theorem no_data_cells_hold_input_sentinel:
  "flow_accumulation_from_d8 (- 1) hole4 =
     Some (Inr \<lparr>view_width = 4, view_height = 3,
                data = [0, 0, 0, 0, 0, 255, 1, 0, 0, 0, 0, 0], no_data = 4294967295\<rparr>)"
  by code_simp

text \<open>
  Claim C3, as amended. On the 3-by-3 raster without no-data cells whose eight edge cells
  route into the centre and whose centre holds \<^verbatim>\<open>NO_FLOW\<close>, the routine returns
  accumulation 1 at the centre and 0 at each of the eight edge cells: edge cells are
  neither counted as sources nor enqueued, so nothing reaches the centre but its own unit.
\<close>

theorem star_sink_centre_one_edges_zero:
  assumes "nd \<notin> {0, 1, 2, 3, 4, 5, 6, 7, 8}"
  shows "flow_accumulation_from_d8 a (star3 nd) =
     Some (Inr \<lparr>view_width = 3, view_height = 3,
                data = [0, 0, 0, 0, 1, 0, 0, 0, 0], no_data = a\<rparr>)"
proof -
  from assms have nd: "nd \<noteq> 0" by auto
  have cd: "create_dependencies (star3 nd) = Inr [0, 0, 0, 0, 0, 0, 0, 0, 0]"
    using nd by (simp add: create_dependencies_def interior_cells_def star3_def size_of_def
        count_dependency_def isNoData_def cell_def xyToI_def NO_FLOW_def eval_nat_numeral)
  have init: "initial_state (star3 nd) [0, 0, 0, 0, 0, 0, 0, 0, 0] =
      \<lparr>accum = [0, 0, 0, 0, 0, 0, 0, 0, 0], deps = [0, 0, 0, 0, 0, 0, 0, 0, 0],
       q = [4], progress = 0\<rparr>"
    using nd by (simp add: initial_state_def find_sources_def interior_cells_def star3_def
        size_of_def isNoData_def cell_def xyToI_def eval_nat_numeral)
  have p: "propagate (star3 nd) \<lparr>accum = [0, 0, 0, 0, 0, 0, 0, 0, 0],
        deps = [0, 0, 0, 0, 0, 0, 0, 0, 0], q = [4], progress = 0\<rparr> =
      Inr \<lparr>accum = [0, 0, 0, 0, 1, 0, 0, 0, 0], deps = [0, 0, 0, 0, 0, 0, 0, 0, 0],
           q = [], progress = Suc 0\<rparr>"
    using nd by (simp add: propagate_def star3_def isNoData_def cell_def NO_FLOW_def
        eval_nat_numeral)
  have rs: "run_scheduler (star3 nd) =
      Some (Inr \<lparr>accum = [0, 0, 0, 0, 1, 0, 0, 0, 0], deps = [0, 0, 0, 0, 0, 0, 0, 0, 0],
           q = [], progress = Suc 0\<rparr>)"
    by (simp add: run_scheduler_def cd init drain.simps [of _ "\<lparr>accum = [0, 0, 0, 0, 0, 0, 0, 0, 0],
        deps = [0, 0, 0, 0, 0, 0, 0, 0, 0], q = [4], progress = 0\<rparr>"] p
        drain.simps [of _ "\<lparr>accum = [0, 0, 0, 0, 1, 0, 0, 0, 0],
        deps = [0, 0, 0, 0, 0, 0, 0, 0, 0], q = [], progress = Suc 0\<rparr>"])
  have st: "stamp_no_data (star3 nd) [0, 0, 0, 0, 1, 0, 0, 0, 0] = [0, 0, 0, 0, 1, 0, 0, 0, 0]"
    using assms by (simp add: stamp_no_data_def star3_def size_of_def isNoData_def cell_def
        upto_rec1 eval_nat_numeral)
  show ?thesis
    by (simp add: flow_accumulation_from_d8_def rs st make_from_template_def)
      (simp add: star3_def)
qed

theorem star_sink_centre_one_edges_zero_witness:
  "(200 :: u8) \<notin> {0, 1, 2, 3, 4, 5, 6, 7, 8} \<and>
   flow_accumulation_from_d8 7 (star3 200) =
     Some (Inr \<lparr>view_width = 3, view_height = 3,
                data = [0, 0, 0, 0, 1, 0, 0, 0, 0], no_data = 7\<rparr>)"
  using star_sink_centre_one_edges_zero [of 200 7] by simp

theorem star_sink_counterexample:
  "flow_accumulation_from_d8 (- 1) (star3 255) =
     Some (Inr \<lparr>view_width = 3, view_height = 3,
                data = [0, 0, 0, 0, 1, 0, 0, 0, 0], no_data = - 1\<rparr>)"
  by code_simp






text \<open>
  Claim C6, as amended. The scheduler handles the live cells only (interior cells holding
  data). Call a live cell finalized when its count is zero and it is not in the queue. In
  every state of a run: the queue holds no cell twice, and only live cells whose count is
  zero; the count of a live cell is the number of its upstream cells that are not yet
  finalized, so each finalized upstream cell has decremented it once; the number of
  dequeue steps made so far is the number of finalized cells; a dequeue step succeeds,
  takes a cell that was not finalized and finalizes exactly that cell, so no cell is
  dequeued twice; and when the queue is empty on an acyclic flow field every live cell is
  finalized. The counts of edge cells and no-data cells are never decremented.
\<close>

theorem live_cells_finalized_once:
  assumes "well_formed g" and "reachable g s"
  shows "distinct (q s) \<and> (\<forall>i \<in> set (q s). live g i \<and> deps s ! nat i = 0) \<and>
         (\<forall>t. live g t \<longrightarrow>
            unat (deps s ! nat t) = card {i \<in> sources g t. \<not> finalized g s i}) \<and>
         progress s = card {i. finalized g s i} \<and>
         (q s \<noteq> [] \<longrightarrow>
            (\<exists>s'. propagate g s = Inr s' \<and> \<not> finalized g s (hd (q s)) \<and>
                  {i. finalized g s' i} = insert (hd (q s)) {i. finalized g s i})) \<and>
         (q s = [] \<and> acyclic (flow_edges g) \<longrightarrow> (\<forall>t. live g t \<longrightarrow> finalized g s t)) \<and>
         (\<forall>t. 0 \<le> t \<and> t < size_of g \<and> \<not> live g t \<longrightarrow>
            unat (deps s ! nat t) = card (sources g t))"
proof -
  note ok = reachable_codes [OF assms]
  note inv = reachable_inv [OF assms]
  have a: "distinct (q s)" "\<forall>i \<in> set (q s). live g i \<and> deps s ! nat i = 0"
    "progress s = card {i. finalized g s i}"
    using inv by (simp_all add: scheduler_inv_def)
  have b: "\<forall>t. live g t \<longrightarrow>
      unat (deps s ! nat t) = card {i \<in> sources g t. \<not> finalized g s i}"
    using inv_pending [OF assms(1) ok inv] by blast
  have c: "\<exists>s'. propagate g s = Inr s' \<and> \<not> finalized g s (hd (q s)) \<and>
      {i. finalized g s' i} = insert (hd (q s)) {i. finalized g s i}" if "q s \<noteq> []"
    using step_inv [OF assms(1) ok inv that] head_facts(4) [OF inv that] by blast
  have d: "\<forall>t. live g t \<longrightarrow> finalized g s t" if "q s = []" "acyclic (flow_edges g)"
    using all_finalized_when_acyclic [OF assms(1) ok inv that] by blast
  have e: "unat (deps s ! nat t) = card (sources g t)"
    if "0 \<le> t \<and> t < size_of g \<and> \<not> live g t" for t
  proof -
    from inv that have "deps s ! nat t = of_nat (card (sources g t))"
      by (simp add: scheduler_inv_def)
    with small_unat [OF card_sources_le [OF assms(1) ok, of t]] show ?thesis by simp
  qed
  from a b c d e show ?thesis by blast
qed

theorem live_cells_finalized_once_witness:
  "well_formed chain5 \<and>
   reachable chain5 (initial_state chain5 [0, 0, 0, 0, 0, 0, 0, 1, 1, 0, 0, 0, 0, 0, 0]) \<and>
   q (initial_state chain5 [0, 0, 0, 0, 0, 0, 0, 1, 1, 0, 0, 0, 0, 0, 0]) = [6] \<and>
   live chain5 6 \<and> live chain5 7 \<and>
   unat (deps (initial_state chain5 [0, 0, 0, 0, 0, 0, 0, 1, 1, 0, 0, 0, 0, 0, 0]) ! nat 7) =
     card {i \<in> sources chain5 7.
             \<not> finalized chain5 (initial_state chain5 [0, 0, 0, 0, 0, 0, 0, 1, 1, 0, 0, 0, 0, 0, 0]) i} \<and>
   card {i. finalized chain5 (initial_state chain5 [0, 0, 0, 0, 0, 0, 0, 1, 1, 0, 0, 0, 0, 0, 0]) i} = 0 \<and>
   (\<exists>s'. propagate chain5 (initial_state chain5 [0, 0, 0, 0, 0, 0, 0, 1, 1, 0, 0, 0, 0, 0, 0]) = Inr s' \<and>
         \<not> finalized chain5 (initial_state chain5 [0, 0, 0, 0, 0, 0, 0, 1, 1, 0, 0, 0, 0, 0, 0]) 6 \<and>
         {i. finalized chain5 s' i} =
           insert 6 {i. finalized chain5 (initial_state chain5 [0, 0, 0, 0, 0, 0, 0, 1, 1, 0, 0, 0, 0, 0, 0]) i}) \<and>
   reachable chain5 \<lparr>accum = [0, 0, 0, 0, 0, 0, 1, 2, 3, 0, 0, 0, 0, 0, 0],
                     deps = [0, 0, 0, 0, 0, 0, 0, 0, 0, 0, 0, 0, 0, 0, 0],
                     q = [], progress = 3\<rparr> \<and>
   acyclic (flow_edges chain5) \<and>
   finalized chain5 \<lparr>accum = [0, 0, 0, 0, 0, 0, 1, 2, 3, 0, 0, 0, 0, 0, 0],
                     deps = [0, 0, 0, 0, 0, 0, 0, 0, 0, 0, 0, 0, 0, 0, 0],
                     q = [], progress = 3\<rparr> 7 \<and>
   \<not> live chain5 9 \<and>
   unat (deps (initial_state chain5 [0, 0, 0, 0, 0, 0, 0, 1, 1, 0, 0, 0, 0, 0, 0]) ! nat 9) =
     card (sources chain5 9)"
proof -
  let ?s0 = "initial_state chain5 [0, 0, 0, 0, 0, 0, 0, 1, 1, 0, 0, 0, 0, 0, 0]"
  let ?sF = "\<lparr>accum = [0, 0, 0, 0, 0, 0, 1, 2, 3, 0, 0, 0, 0, 0, 0],
             deps = [0, 0, 0, 0, 0, 0, 0, 0, 0, 0, 0, 0, 0, 0, 0 :: i8],
             q = [] :: int list, progress = 3 :: nat\<rparr>"
  have r0: "reachable chain5 ?s0" by (rule reachable.start [OF chain5_dependencies])
  have rF: "reachable chain5 ?sF"
    by (rule run_scheduler_reachable(1) [OF chain5_well_formed chain5_run])
  note t0 = live_cells_finalized_once [OF chain5_well_formed r0]
  note tF = live_cells_finalized_once [OF chain5_well_formed rF]
  have q0: "q ?s0 = [6]" by code_simp
  have l: "live chain5 6" "live chain5 7" "\<not> live chain5 9" by (simp_all add: chain5_live)
  have sz: "(0 :: int) \<le> 9 \<and> 9 < size_of chain5" by code_simp
  from t0 l(2) have a: "unat (deps ?s0 ! nat 7) =
      card {i \<in> sources chain5 7. \<not> finalized chain5 ?s0 i}" by blast
  from t0 have "progress ?s0 = card {i. finalized chain5 ?s0 i}" by blast
  then have b: "card {i. finalized chain5 ?s0 i} = 0" by (simp add: initial_state_def)
  from t0 q0 have c: "\<exists>s'. propagate chain5 ?s0 = Inr s' \<and> \<not> finalized chain5 ?s0 6 \<and>
      {i. finalized chain5 s' i} = insert 6 {i. finalized chain5 ?s0 i}" by simp
  from tF l(2) chain5_acyclic have d: "finalized chain5 ?sF 7" by simp
  from t0 l(3) sz have e: "unat (deps ?s0 ! nat 9) = card (sources chain5 9)" by blast
  from chain5_well_formed r0 q0 l a b c rF chain5_acyclic d e show ?thesis by blast
qed

theorem scheduler_counterexample:
  "acyclic (claimed_edges west3) \<and> isEdgeCell west3 0 1 \<and> xyToI west3 0 1 = 3 \<and>
   create_dependencies west3 = Inr [0, 0, 0, 1, 0, 0, 0, 0, 0] \<and>
   run_scheduler west3 =
     Some (Inr \<lparr>accum = [0, 0, 0, 0, 1, 0, 0, 0, 0], deps = [0, 0, 0, 1, 0, 0, 0, 0, 0],
                q = [], progress = Suc 0\<rparr>)"
proof -
  have "isEdgeCell west3 0 1" "xyToI west3 0 1 = 3" by code_simp+
  with west3_claimed_acyclic west3_dependencies west3_run show ?thesis by simp
qed



text \<open>
  Claim C8, as amended. The codes at edge cells are not checked: when the live cells
  (interior cells holding data) hold codes of at most 8, the routine returns an
  accumulation raster, whatever the edge cells hold.
\<close>

theorem codes_not_validated:
  assumes "well_formed g" and "\<forall>i. live g i \<longrightarrow> unat (cell g i) \<le> 8"
  shows "\<exists>out. flow_accumulation_from_d8 a g = Some (Inr out)"
proof -
  from assms have "codes_in_range g" by (simp add: codes_in_range_iff)
  with run_scheduler_result [OF assms(1)] show ?thesis
    by (auto simp: flow_accumulation_from_d8_result)
qed

theorem codes_not_validated_witness:
  "well_formed corner9 \<and> cell corner9 0 = 9 \<and> \<not> isNoData corner9 0 \<and>
   interior_indices corner9 = [4] \<and> unat (cell corner9 4) \<le> 8 \<and>
   (\<exists>out. flow_accumulation_from_d8 (- 1) corner9 = Some (Inr out))"
proof -
  have wf: "well_formed corner9" by (simp add: well_formed_def corner9_def)
  have i: "interior_indices corner9 = [4]" by code_simp
  have c: "cell corner9 0 = 9" "\<not> isNoData corner9 0" "unat (cell corner9 4) \<le> 8"
    by code_simp+
  have "\<forall>i. live corner9 i \<longrightarrow> unat (cell corner9 i) \<le> 8"
    using c(3) by (simp add: live_indices [OF wf] i)
  from codes_not_validated [OF wf this, of "- 1"] wf i c show ?thesis by blast
qed

theorem codes_counterexample:
  "cell corner9 (xyToI corner9 0 0) = 9 \<and> \<not> isNoData corner9 (xyToI corner9 0 0) \<and>
   flow_accumulation_from_d8 (- 1) corner9 =
     Some (Inr \<lparr>view_width = 3, view_height = 3,
                data = [0, 0, 0, 0, 1, 0, 0, 0, 0], no_data = - 1\<rparr>)"
  by code_simp

text \<open>
  Claim C9. A data cell on the edge of the raster is never in the ready queue and its
  accumulation register is 0 in every state of the run, so it is 0 in the raster the
  routine returns: what an interior neighbour routes into it is dropped.
\<close>

theorem edge_cells_end_at_zero:
  assumes "well_formed g" and "inGrid g x y" and "isEdgeCell g x y"
    and "\<not> isNoData g (xyToI g x y)"
  shows "(\<forall>s. reachable g s \<longrightarrow>
            xyToI g x y \<notin> set (q s) \<and> accum s ! nat (xyToI g x y) = 0) \<and>
         (\<forall>out. flow_accumulation_from_d8 a g = Some (Inr out) \<longrightarrow>
            data out ! nat (xyToI g x y) = 0)"
proof -
  let ?i = "xyToI g x y"
  have nl: "\<not> live g ?i" by (rule live_not_edge [OF assms(2,3)])
  have r: "0 \<le> ?i" "?i < size_of g"
    using xyToI_bounds [of x g y] assms(2) by (simp_all add: inGrid_def)
  have st: "?i \<notin> set (q s) \<and> accum s ! nat ?i = 0" if "reachable g s" for s
    using reachable_inv [OF assms(1) that] nl r by (auto simp: scheduler_inv_def)
  have "data out ! nat ?i = 0" if o: "flow_accumulation_from_d8 a g = Some (Inr out)" for out
  proof -
    from o obtain s where s: "run_scheduler g = Some (Inr s)"
      and d: "data out = stamp_no_data g (accum s)"
      by (auto simp: flow_accumulation_from_d8_result)
    note rs = run_scheduler_reachable [OF assms(1) s]
    from reachable_inv [OF assms(1) rs(1)] have "length (accum s) = nat (size_of g)"
      by (simp add: scheduler_inv_def)
    from stamp_no_data_nth [OF r this] assms(4) st [OF rs(1)] show ?thesis by (simp add: d)
  qed
  with st show ?thesis by blast
qed

theorem edge_cells_end_at_zero_witness:
  "well_formed west3 \<and> inGrid west3 0 1 \<and> isEdgeCell west3 0 1 \<and>
   \<not> isNoData west3 (xyToI west3 0 1) \<and> xyToI west3 0 1 = 3 \<and>
   target west3 4 = 3 \<and> delivers west3 4 = False \<and>
   reachable west3 \<lparr>accum = [0, 0, 0, 0, 1, 0, 0, 0, 0], deps = [0, 0, 0, 1, 0, 0, 0, 0, 0],
      q = [], progress = Suc 0\<rparr> \<and>
   [0, 0, 0, 0, 1, 0, 0, 0, 0] ! nat (xyToI west3 0 1) = (0 :: u32) \<and>
   flow_accumulation_from_d8 (- 1) west3 =
     Some (Inr \<lparr>view_width = 3, view_height = 3,
                data = [0, 0, 0, 0, 1, 0, 0, 0, 0], no_data = - 1\<rparr>)"
proof -
  have h: "inGrid west3 0 1" "isEdgeCell west3 0 1" "\<not> isNoData west3 (xyToI west3 0 1)"
    "xyToI west3 0 1 = 3" "target west3 4 = 3" "delivers west3 4 = False"
    by code_simp+
  from edge_cells_end_at_zero [OF west3_well_formed h(1,2,3), of "- 1"] west3_reachable
  have "accum \<lparr>accum = [0, 0, 0, 0, 1, 0, 0, 0, 0], deps = [0, 0, 0, 1, 0, 0, 0, 0, 0],
      q = [], progress = Suc 0\<rparr> ! nat (xyToI west3 0 1) = (0 :: u32)"
    by blast
  with h west3_well_formed west3_reachable west3_result show ?thesis by simp
qed

text \<open>
  Claim C10. The signed 8-bit dependency counts stay within 0..8 throughout: after any
  number of cells of the dependency-count pass, and in every state of the propagation
  loop; the assertion \<^verbatim>\<open>deps(ni) >= 0\<close> never fails.
\<close>

theorem dependency_counts_stay_in_range:
  assumes "well_formed g"
  shows "(\<forall>k ds. for_each (count_dependency g) (take k (interior_cells g))
                    (replicate (nat (size_of g)) 0) = Inr ds \<longrightarrow>
                  (\<forall>d \<in> set ds. 0 \<le> sint d \<and> sint d \<le> 8)) \<and>
         (\<forall>s. reachable g s \<longrightarrow> (\<forall>d \<in> set (deps s). 0 \<le> sint d \<and> sint d \<le> 8)) \<and>
         run_scheduler g \<noteq> Some (Inl AssertionFailed)"
  using prefix_counts_in_range [OF assms] reachable_counts_in_range [OF assms]
    run_scheduler_no_assertion [OF assms]
  by blast

theorem dependency_counts_stay_in_range_witness:
  "well_formed chain5 \<and>
   for_each (count_dependency chain5) (take 1 (interior_cells chain5))
     (replicate (nat (size_of chain5)) 0) = Inr [0, 0, 0, 0, 0, 0, 0, 1, 0, 0, 0, 0, 0, 0, 0] \<and>
   0 \<le> sint ([0, 0, 0, 0, 0, 0, 0, 1, 0, 0, 0, 0, 0, 0, 0 :: i8] ! 7) \<and>
   sint ([0, 0, 0, 0, 0, 0, 0, 1, 0, 0, 0, 0, 0, 0, 0 :: i8] ! 7) \<le> 8 \<and>
   reachable chain5 (initial_state chain5 [0, 0, 0, 0, 0, 0, 0, 1, 1, 0, 0, 0, 0, 0, 0]) \<and>
   deps (initial_state chain5 [0, 0, 0, 0, 0, 0, 0, 1, 1, 0, 0, 0, 0, 0, 0]) ! 8 = 1 \<and>
   sint (deps (initial_state chain5 [0, 0, 0, 0, 0, 0, 0, 1, 1, 0, 0, 0, 0, 0, 0]) ! 8) \<le> 8 \<and>
   run_scheduler chain5 \<noteq> Some (Inl AssertionFailed)"
proof -
  note t = dependency_counts_stay_in_range [OF chain5_well_formed]
  have a: "for_each (count_dependency chain5) (take 1 (interior_cells chain5))
     (replicate (nat (size_of chain5)) 0) = Inr [0, 0, 0, 0, 0, 0, 0, 1, 0, 0, 0, 0, 0, 0, 0]"
    by code_simp
  with t have "\<forall>d \<in> set [0, 0, 0, 0, 0, 0, 0, 1, 0, 0, 0, 0, 0, 0, 0 :: i8].
      0 \<le> sint d \<and> sint d \<le> 8" by blast
  then have b: "0 \<le> sint ([0, 0, 0, 0, 0, 0, 0, 1, 0, 0, 0, 0, 0, 0, 0 :: i8] ! 7) \<and>
      sint ([0, 0, 0, 0, 0, 0, 0, 1, 0, 0, 0, 0, 0, 0, 0 :: i8] ! 7) \<le> 8" by simp
  have r: "reachable chain5 (initial_state chain5 [0, 0, 0, 0, 0, 0, 0, 1, 1, 0, 0, 0, 0, 0, 0])"
    by (rule reachable.start [OF chain5_dependencies])
  with t have "\<forall>d \<in> set (deps (initial_state chain5 [0, 0, 0, 0, 0, 0, 0, 1, 1, 0, 0, 0, 0, 0, 0])).
      0 \<le> sint d \<and> sint d \<le> 8" by blast
  then have c: "sint (deps (initial_state chain5 [0, 0, 0, 0, 0, 0, 0, 1, 1, 0, 0, 0, 0, 0, 0]) ! 8) \<le> 8"
    by (simp add: initial_state_def)
  have d: "deps (initial_state chain5 [0, 0, 0, 0, 0, 0, 0, 1, 1, 0, 0, 0, 0, 0, 0]) ! 8 = 1"
    by (simp add: initial_state_def)
  from t a b c d r chain5_well_formed show ?thesis by blast
qed

end
